theory Spec2Isabelle
  imports Main "HOL-Library.Word"
begin

unbundle bit_operations_syntax

section \<open>Machine types\<close>

text \<open>
  \<open>size_t\<close> and data pointers are 64 bits wide (the AArch64 target of the NEON kernel);
  all arithmetic on them wraps around.  A \<open>const void*\<close> is modelled by its address, and
  arithmetic on it counts bytes, as the planner's \<open>input + ...\<close> expressions do.
\<close>

type_synonym size_t = "64 word"
type_synonym ptr = "64 word"

section \<open>Loops\<close>

text \<open>
  \<open>for (size_t i = start; i < n; i++) body\<close>.  The counter never wraps, because
  \<open>i < n\<close> holds whenever it is incremented, so the loop always terminates.
\<close>

function for_loop :: "size_t \<Rightarrow> size_t \<Rightarrow> (size_t \<Rightarrow> 's \<Rightarrow> 's) \<Rightarrow> 's \<Rightarrow> 's" where
  "for_loop i n body s = (if i < n then for_loop (i + 1) n body (body i s) else s)"
  by pat_completeness auto
termination
proof (relation "measure (\<lambda>(i, n, body, s). unat n - unat i)")
  show "wf (measure (\<lambda>(i, n, body, s). unat n - unat i))" by simp
next
  fix i n :: size_t and body :: "size_t \<Rightarrow> 's \<Rightarrow> 's" and s :: 's
  assume "i < n"
  then have lt: "unat i < unat n" by (simp add: word_less_nat_alt)
  have "unat n < 2 ^ LENGTH(64)" by (rule unsigned_less)
  with lt have "unat i + unat (1::size_t) < 2 ^ LENGTH(64)" by simp
  then have "unat (i + 1) = unat i + unat (1::size_t)" by (simp only: unat_add_lem)
  with lt show "((i + 1, n, body, body i s), (i, n, body, s))
          \<in> measure (\<lambda>(i, n, body, s). unat n - unat i)"
    by simp
qed

text \<open>
  The same loop with a body that may fail: \<open>None\<close> is a run that has no result, and it
  ends the loop.
\<close>

function for_loop_m ::
  "size_t \<Rightarrow> size_t \<Rightarrow> (size_t \<Rightarrow> 's \<Rightarrow> 's option) \<Rightarrow> 's \<Rightarrow> 's option" where
  "for_loop_m i n body s =
     (if i < n then (case body i s of None \<Rightarrow> None | Some s' \<Rightarrow> for_loop_m (i + 1) n body s')
      else Some s)"
  by pat_completeness auto
termination
proof (relation "measure (\<lambda>(i, n, body, s). unat n - unat i)")
  show "wf (measure (\<lambda>(i, n, body, s). unat n - unat i))" by simp
next
  fix i n :: size_t and body :: "size_t \<Rightarrow> 's \<Rightarrow> 's option" and s s' :: 's
  assume "i < n"
  then have lt: "unat i < unat n" by (simp add: word_less_nat_alt)
  have "unat n < 2 ^ LENGTH(64)" by (rule unsigned_less)
  with lt have "unat i + unat (1::size_t) < 2 ^ LENGTH(64)" by simp
  then have "unat (i + 1) = unat i + unat (1::size_t)" by (simp only: unat_add_lem)
  with lt show "((i + 1, n, body, s'), (i, n, body, s))
          \<in> measure (\<lambda>(i, n, body, s). unat n - unat i)"
    by simp
qed

text \<open>
  \<open>for (size_t i = start; i < n; i += step) body\<close>.  With \<open>step = 0\<close>, or when
  \<open>i + step\<close> wraps around before reaching \<open>n\<close>, this loop runs forever: the result
  \<open>None\<close> stands for a call that does not return (or whose body has no result).
\<close>

partial_function (option) for_step ::
  "size_t \<Rightarrow> size_t \<Rightarrow> size_t \<Rightarrow> (size_t \<Rightarrow> 's \<Rightarrow> 's option) \<Rightarrow> 's \<Rightarrow> 's option" where
  "for_step i n step body s =
     (if i < n then (case body i s of None \<Rightarrow> None | Some s' \<Rightarrow> for_step (i + step) n step body s')
      else Some s)"

declare for_step.simps [code]

section \<open>Pointer math utilities\<close>


section \<open>The operator descriptor\<close>

text \<open>
  The fields of \<open>qnnp_operator\<close> that the planners read.  The indirection buffer is the
  array of pointer slots the planners write, given by the content of each slot index.
\<close>

record qnnp_operator =
  indirection_buffer :: "size_t \<Rightarrow> ptr"
  input :: ptr
  input_pixel_stride :: size_t
  zero_pointer :: ptr
  groups :: size_t
  group_input_channels :: size_t
  batch_size :: size_t
  input_height :: size_t
  input_width :: size_t
  output_height :: size_t
  output_width :: size_t
  kernel_height :: size_t
  kernel_width :: size_t
  stride_height :: size_t
  stride_width :: size_t
  dilation_height :: size_t
  dilation_width :: size_t
  input_padding_top :: size_t
  input_padding_left :: size_t

section \<open>Indirection planner: max-pooling and depthwise convolution\<close>






section \<open>Indirection planner: direct and transposed convolution\<close>

text \<open>
  Modelled from the spec: \<open>fxdiv.h\<close> is not among the sources.  \<open>fast_divmod(x, W)\<close>
  returns \<open>(x / W, x mod W)\<close>, matching exact integer division; \<open>W = 0\<close> is never passed,
  so the planner has no result when \<open>output_width\<close> is zero.
\<close>

definition fxdiv_divide_size_t :: "size_t \<Rightarrow> size_t \<Rightarrow> size_t \<times> size_t" where
  "fxdiv_divide_size_t n d = (n div d, n mod d)"

text \<open>The slot index of both planners: buffer shape \<open>n, tile, kH, kW, tile_offset\<close>.\<close>

definition conv2d_index ::
  "qnnp_operator \<Rightarrow> size_t \<Rightarrow> size_t \<Rightarrow> size_t \<Rightarrow> size_t \<Rightarrow> size_t \<Rightarrow> size_t \<Rightarrow> size_t
     \<Rightarrow> size_t \<Rightarrow> size_t" where
  "conv2d_index op output_tile_size tiled_output_size grp img output_tile_start
       output_tile_offset kernel_y kernel_x =
     (let kernel_size = kernel_height op * kernel_width op
      in (grp * batch_size op + img) * tiled_output_size * kernel_size
           + output_tile_start * kernel_size
           + (kernel_y * kernel_width op + kernel_x) * output_tile_size
           + output_tile_offset)"

definition conv2d_tile_offset ::
  "qnnp_operator \<Rightarrow> size_t \<Rightarrow> size_t \<Rightarrow> size_t \<Rightarrow> size_t \<Rightarrow> size_t \<Rightarrow> size_t
     \<Rightarrow> (size_t \<Rightarrow> ptr) \<Rightarrow> (size_t \<Rightarrow> ptr)" where
  "conv2d_tile_offset op output_tile_size tiled_output_size grp img output_tile_start
       output_tile_offset =
     (let output_size = output_height op * output_width op;
          tiled_output_index = output_tile_start + output_tile_offset;
          output_index = min tiled_output_index (output_size - 1);
          (output_y, output_x) = fxdiv_divide_size_t output_index (output_width op)
      in for_loop 0 (kernel_height op) (\<lambda>kernel_y buf.
           let input_y = output_y * stride_height op + kernel_y * dilation_height op
                           - input_padding_top op
           in if input_y < input_height op then
                for_loop 0 (kernel_width op) (\<lambda>kernel_x buf.
                  let input_x = output_x * stride_width op + kernel_x * dilation_width op
                                  - input_padding_left op;
                      index = conv2d_index op output_tile_size tiled_output_size grp img
                                output_tile_start output_tile_offset kernel_y kernel_x
                  in if input_x < input_width op
                     then buf (index := input op
                            + img * input_height op * input_width op * input_pixel_stride op
                            + (input_y * input_width op + input_x) * input_pixel_stride op
                            + grp * group_input_channels op)
                     else buf (index := zero_pointer op)) buf
              else
                for_loop 0 (kernel_width op) (\<lambda>kernel_x buf.
                  let index = conv2d_index op output_tile_size tiled_output_size grp img
                                output_tile_start output_tile_offset kernel_y kernel_x
                  in buf (index := zero_pointer op)) buf))"

definition qnnp_indirection_init_conv2d ::
  "qnnp_operator \<Rightarrow> size_t \<Rightarrow> size_t \<Rightarrow> (size_t \<Rightarrow> ptr) option" where
  "qnnp_indirection_init_conv2d op output_tile_size tiled_output_size =
     (if output_width op = 0 then None
      else
        for_loop_m 0 (groups op) (\<lambda>grp.
          for_loop_m 0 (batch_size op) (\<lambda>img.
            for_step 0 tiled_output_size output_tile_size (\<lambda>output_tile_start buf.
              Some (for_loop 0 output_tile_size
                      (conv2d_tile_offset op output_tile_size tiled_output_size grp img
                         output_tile_start) buf))))
          (indirection_buffer op))"

text \<open>
  The transposed-convolution planner divides with C's \<open>/\<close> and \<open>%\<close>, which are undefined
  for a zero divisor: such a run has no result.
\<close>

definition deconv2d_tile_offset ::
  "qnnp_operator \<Rightarrow> size_t \<Rightarrow> size_t \<Rightarrow> size_t \<Rightarrow> size_t \<Rightarrow> size_t \<Rightarrow> size_t
     \<Rightarrow> (size_t \<Rightarrow> ptr) \<Rightarrow> (size_t \<Rightarrow> ptr) option" where
  "deconv2d_tile_offset op output_tile_size tiled_output_size grp img output_tile_start
       output_tile_offset buf =
     (let output_size = output_height op * output_width op;
          tiled_output_index = output_tile_start + output_tile_offset;
          output_index = min tiled_output_index (output_size - 1)
      in if output_width op = 0 then None
         else
           let output_y = output_index div output_width op;
               output_x = output_index mod output_width op
           in for_loop_m 0 (kernel_height op) (\<lambda>kernel_y buf.
                let y = output_y + input_padding_top op - kernel_y * dilation_height op
                in if stride_height op = 0 then None
                   else
                     let input_y = y div stride_height op
                     in for_loop_m 0 (kernel_width op) (\<lambda>kernel_x buf.
                          let x = output_x + input_padding_left op - kernel_x * dilation_width op
                          in if stride_width op = 0 then None
                             else
                               let input_x = x div stride_width op;
                                   index = conv2d_index op output_tile_size tiled_output_size
                                             grp img output_tile_start output_tile_offset
                                             kernel_y kernel_x
                               in if input_y * stride_height op = y \<and> input_y < input_height op
                                     \<and> input_x * stride_width op = x \<and> input_x < input_width op
                                  then Some (buf (index := input op
                                         + ((img * input_height op + input_y) * input_width op
                                              + input_x) * input_pixel_stride op
                                         + grp * group_input_channels op))
                                  else Some (buf (index := zero_pointer op))) buf) buf)"

definition qnnp_indirection_init_deconv2d ::
  "qnnp_operator \<Rightarrow> size_t \<Rightarrow> size_t \<Rightarrow> (size_t \<Rightarrow> ptr) option" where
  "qnnp_indirection_init_deconv2d op output_tile_size tiled_output_size =
     for_loop_m 0 (groups op) (\<lambda>grp.
       for_loop_m 0 (batch_size op) (\<lambda>img.
         for_step 0 tiled_output_size output_tile_size (\<lambda>output_tile_start.
           for_loop_m 0 output_tile_size
             (deconv2d_tile_offset op output_tile_size tiled_output_size grp img
                output_tile_start))))
       (indirection_buffer op)"

declare for_loop.simps [simp del] for_loop_m.simps [simp del]

section \<open>Write sites of the planners\<close>

definition word_range :: "size_t \<Rightarrow> size_t \<Rightarrow> size_t list" where
  "word_range i n = map of_nat [unat i..<unat n]"









definition step_range :: "size_t \<Rightarrow> size_t \<Rightarrow> size_t list" where
  "step_range n step = map (\<lambda>j. of_nat j * step) [0..<unat n div unat step]"

type_synonym conv_site = "size_t \<times> size_t \<times> size_t \<times> size_t \<times> size_t \<times> size_t"

definition conv_sites :: "qnnp_operator \<Rightarrow> size_t \<Rightarrow> size_t \<Rightarrow> conv_site list" where
  "conv_sites op mr T =
     List.product (word_range 0 (groups op))
       (List.product (word_range 0 (batch_size op))
         (List.product (step_range T mr)
           (List.product (word_range 0 mr)
             (List.product (word_range 0 (kernel_height op)) (word_range 0 (kernel_width op))))))"

definition conv_site_index :: "qnnp_operator \<Rightarrow> size_t \<Rightarrow> size_t \<Rightarrow> conv_site \<Rightarrow> size_t" where
  "conv_site_index op mr T = (\<lambda>(g, n, t0, d, ky, kx). conv2d_index op mr T g n t0 d ky kx)"

definition conv2d_value ::
  "qnnp_operator \<Rightarrow> size_t \<Rightarrow> size_t \<Rightarrow> size_t \<Rightarrow> size_t \<Rightarrow> size_t \<Rightarrow> size_t \<Rightarrow> ptr" where
  "conv2d_value op g n t0 d ky kx =
     (let output_index = min (t0 + d) (output_height op * output_width op - 1);
          output_y = output_index div output_width op;
          output_x = output_index mod output_width op;
          input_y = output_y * stride_height op + ky * dilation_height op - input_padding_top op;
          input_x = output_x * stride_width op + kx * dilation_width op - input_padding_left op
      in if input_y < input_height op \<and> input_x < input_width op
         then input op + n * input_height op * input_width op * input_pixel_stride op
                + (input_y * input_width op + input_x) * input_pixel_stride op
                + g * group_input_channels op
         else zero_pointer op)"

definition conv2d_site_value :: "qnnp_operator \<Rightarrow> conv_site \<Rightarrow> ptr" where
  "conv2d_site_value op = (\<lambda>(g, n, t0, d, ky, kx). conv2d_value op g n t0 d ky kx)"

definition deconv2d_value ::
  "qnnp_operator \<Rightarrow> size_t \<Rightarrow> size_t \<Rightarrow> size_t \<Rightarrow> size_t \<Rightarrow> size_t \<Rightarrow> size_t \<Rightarrow> ptr" where
  "deconv2d_value op g n t0 d ky kx =
     (let output_index = min (t0 + d) (output_height op * output_width op - 1);
          output_y = output_index div output_width op;
          output_x = output_index mod output_width op;
          y = output_y + input_padding_top op - ky * dilation_height op;
          input_y = y div stride_height op;
          x = output_x + input_padding_left op - kx * dilation_width op;
          input_x = x div stride_width op
      in if input_y * stride_height op = y \<and> input_y < input_height op
            \<and> input_x * stride_width op = x \<and> input_x < input_width op
         then input op + ((n * input_height op + input_y) * input_width op + input_x)
                          * input_pixel_stride op
                + g * group_input_channels op
         else zero_pointer op)"

definition deconv2d_site_value :: "qnnp_operator \<Rightarrow> conv_site \<Rightarrow> ptr" where
  "deconv2d_site_value op = (\<lambda>(g, n, t0, d, ky, kx). deconv2d_value op g n t0 d ky kx)"

definition conv_example :: qnnp_operator where
  "conv_example = \<lparr>indirection_buffer = (\<lambda>_. 7), input = 4096, input_pixel_stride = 1,
     zero_pointer = 64, groups = 1, group_input_channels = 1, batch_size = 1,
     input_height = 4, input_width = 4, output_height = 4, output_width = 4,
     kernel_height = 3, kernel_width = 3, stride_height = 1, stride_width = 1,
     dilation_height = 1, dilation_width = 1, input_padding_top = 1, input_padding_left = 1\<rparr>"

definition deconv_example :: qnnp_operator where
  "deconv_example = \<lparr>indirection_buffer = (\<lambda>_. 7), input = 4096, input_pixel_stride = 1,
     zero_pointer = 64, groups = 1, group_input_channels = 1, batch_size = 1,
     input_height = 2, input_width = 2, output_height = 4, output_width = 4,
     kernel_height = 2, kernel_width = 2, stride_height = 2, stride_width = 2,
     dilation_height = 1, dilation_width = 1, input_padding_top = 0, input_padding_left = 0\<rparr>"

definition deconv_wrap_example :: qnnp_operator where
  "deconv_wrap_example = \<lparr>indirection_buffer = (\<lambda>_. 7), input = 4096, input_pixel_stride = 1,
     zero_pointer = 64, groups = 1, group_input_channels = 1, batch_size = 1,
     input_height = 3, input_width = 1, output_height = 1, output_width = 1,
     kernel_height = 2, kernel_width = 1, stride_height = 2, stride_width = 1,
     dilation_height = 18446744073709551612, dilation_width = 1,
     input_padding_top = 0, input_padding_left = 0\<rparr>"

definition conv_tail_example :: qnnp_operator where
  "conv_tail_example = \<lparr>indirection_buffer = (\<lambda>_. 7), input = 4096, input_pixel_stride = 1,
     zero_pointer = 64, groups = 1, group_input_channels = 1, batch_size = 1,
     input_height = 3, input_width = 3, output_height = 3, output_width = 3,
     kernel_height = 3, kernel_width = 3, stride_height = 1, stride_width = 1,
     dilation_height = 1, dilation_width = 1, input_padding_top = 1, input_padding_left = 1\<rparr>"

section \<open>The 8x8 micro-kernel\<close>

type_synonym u8 = "8 word"
type_synonym i16 = "16 word"
type_synonym i32 = "32 word"

text \<open>Byte-addressed memory, holding the activations and the output block.\<close>

type_synonym memory = "ptr \<Rightarrow> u8"

subsection \<open>NEON operations\<close>

text \<open>
  The intrinsics of \<open>arm_neon.h\<close> that the kernel uses, after their definition in the Arm
  architecture.  A vector is the list of its lanes, lane 0 first; memory is little-endian.
  Signed lanes are words read with \<open>sint\<close>.
\<close>

definition vld1_u8 :: "memory \<Rightarrow> ptr \<Rightarrow> u8 list" where
  "vld1_u8 mem p = map (\<lambda>i. mem (p + of_nat i)) [0..<8]"

definition vmovl_u8 :: "u8 list \<Rightarrow> i16 list" where
  "vmovl_u8 v = map ucast v"

definition vsubl_u8 :: "u8 list \<Rightarrow> u8 list \<Rightarrow> i16 list" where
  "vsubl_u8 a b = map2 (\<lambda>x y. ucast x - ucast y) a b"

text \<open>
  \<open>vmlal_lane_s16\<close>: widening multiply of every lane of \<open>b\<close> by one lane of \<open>v\<close>, added to
  the 32-bit accumulators with wrap-around.  A row's two accumulators \<open>vaccIx0123\<close> and
  \<open>vaccIx4567\<close> are kept as one list of 8 lanes, \<open>b\<close> as the 8 lanes of \<open>vxb01234567\<close>, and
  lane \<open>c\<close> of the 8 widened activations is lane \<open>c\<close> of \<open>vget_low_s16\<close> for \<open>c < 4\<close> and lane
  \<open>c - 4\<close> of \<open>vget_high_s16\<close> otherwise.
\<close>

definition vmlal_lane_s16 :: "i32 list \<Rightarrow> i16 list \<Rightarrow> i16 list \<Rightarrow> nat \<Rightarrow> i32 list" where
  "vmlal_lane_s16 vacc b v lane = map2 (\<lambda>a x. a + scast x * scast (v ! lane)) vacc b"

definition vreinterpret_u64_u8 :: "u8 list \<Rightarrow> 64 word" where
  "vreinterpret_u64_u8 v = foldr (\<lambda>b x. ucast b OR push_bit 8 x) v 0"

definition vreinterpret_u8_u64 :: "64 word \<Rightarrow> u8 list" where
  "vreinterpret_u8_u64 x = map (\<lambda>i. ucast (drop_bit (8 * i) x)) [0..<8]"

text \<open>
  \<open>vshl_u64\<close> shifts by the signed value of the low byte of the count: left when it is
  positive, logically right when it is negative.
\<close>

definition vshl_u64 :: "64 word \<Rightarrow> 64 word \<Rightarrow> 64 word" where
  "vshl_u64 x count =
     (let s = sint (ucast count :: 8 word)
      in if 0 \<le> s then push_bit (nat s) x else drop_bit (nat (- s)) x)"

definition sat_s32 :: "int \<Rightarrow> i32" where
  "sat_s32 x = word_of_int (max (- (2 ^ 31)) (min (2 ^ 31 - 1) x))"

definition sat_s16 :: "int \<Rightarrow> i16" where
  "sat_s16 x = word_of_int (max (- (2 ^ 15)) (min (2 ^ 15 - 1) x))"

definition sat_u8 :: "int \<Rightarrow> u8" where
  "sat_u8 x = word_of_int (max 0 (min 255 x))"

text \<open>One lane of \<open>vqrdmulhq_s32\<close>: saturating rounding doubling multiply, high half.\<close>

definition vqrdmulhq_s32 :: "i32 \<Rightarrow> i32 \<Rightarrow> i32" where
  "vqrdmulhq_s32 a b = sat_s32 ((2 * sint a * sint b + 2 ^ 31) div 2 ^ 32)"

definition vceqq_s32 :: "i32 \<Rightarrow> i32 \<Rightarrow> i32" where
  "vceqq_s32 a b = (if a = b then - 1 else 0)"

definition vbicq_s32 :: "i32 \<Rightarrow> i32 \<Rightarrow> i32" where
  "vbicq_s32 a b = a AND NOT b"

definition vsraq_n_s32 :: "i32 \<Rightarrow> i32 \<Rightarrow> nat \<Rightarrow> i32" where
  "vsraq_n_s32 a b n = a + signed_drop_bit n b"

text \<open>
  One lane of \<open>vrshlq_s32\<close>: the count is the signed low byte of the second operand; a
  negative count is a rounding shift to the right, computed without intermediate overflow.
\<close>

definition vrshlq_s32 :: "i32 \<Rightarrow> i32 \<Rightarrow> i32" where
  "vrshlq_s32 a count =
     (let s = sint (ucast count :: 8 word)
      in if 0 \<le> s then push_bit (nat s) a
         else word_of_int ((sint a + 2 ^ (nat (- s) - 1)) div 2 ^ nat (- s)))"

definition vqmovn_s32 :: "i32 \<Rightarrow> i16" where
  "vqmovn_s32 a = sat_s16 (sint a)"

definition vqaddq_s16 :: "i16 \<Rightarrow> i16 \<Rightarrow> i16" where
  "vqaddq_s16 a b = sat_s16 (sint a + sint b)"

definition vqmovun_s16 :: "i16 \<Rightarrow> u8" where
  "vqmovun_s16 a = sat_u8 (sint a)"

definition vextq_u8 :: "u8 list \<Rightarrow> u8 list \<Rightarrow> nat \<Rightarrow> u8 list" where
  "vextq_u8 a b n = drop n a @ take n b"

text \<open>Storing consecutive bytes, lowest address first.\<close>

fun store_bytes :: "memory \<Rightarrow> ptr \<Rightarrow> u8 list \<Rightarrow> memory" where
  "store_bytes mem p [] = mem"
| "store_bytes mem p (b # bs) = store_bytes (mem (p := b)) (p + 1) bs"

subsection \<open>Quantization parameters\<close>

text \<open>
  The \<open>neon\<close> member of \<open>union qnnp_conv_quantization_params\<close>, whose declaration is not among
  the sources: the fields as the kernel loads them.  \<open>kernel_zero_point\<close> is the byte that
  \<open>vld1_dup_u8\<close> reads; \<open>right_shift\<close> is the 32-bit count handed to \<open>vrshlq_s32\<close>, so the
  kernel shifts right by \<open>S\<close> when the field holds \<open>- S\<close>.
\<close>

record neon_params =
  kernel_zero_point :: u8
  multiplier :: i32
  right_shift :: i32
  output_zero_point :: i16
  output_min :: u8
  output_max :: u8

subsection \<open>The packed weight stream and the indirection slice\<close>

text \<open>
  \<open>w\<close> and \<open>a\<close> are \<open>restrict\<close>-qualified and read front to back only: each is the list of
  what remains to be read, and a read past its end has no result (\<open>None\<close>).
\<close>

definition vld1q_s32 :: "u8 list \<Rightarrow> (i32 list \<times> u8 list) option" where
  "vld1q_s32 w =
     (if length w < 16 then None
      else Some (map (\<lambda>i. word_rcat (rev (take 4 (drop (4 * i) w)))) [0..<4], drop 16 w))"

definition vld1_u8_w :: "u8 list \<Rightarrow> (u8 list \<times> u8 list) option" where
  "vld1_u8_w w = (if length w < 8 then None else Some (take 8 w, drop 8 w))"

subsection \<open>Accumulation\<close>

text \<open>
  One braced block of the source: load 8 weights, subtract the kernel zero point with
  widening, and multiply-accumulate activation lane \<open>lane\<close> of each of the 8 rows.
\<close>

definition mac_lane ::
  "u8 \<Rightarrow> i16 list list \<Rightarrow> nat \<Rightarrow> i32 list list \<times> u8 list \<Rightarrow> (i32 list list \<times> u8 list) option"
  where
  "mac_lane vb_zero_point vxa lane = (\<lambda>(vacc, w).
     case vld1_u8_w w of
       None \<Rightarrow> None
     | Some (vb01234567, w') \<Rightarrow>
         let vxb01234567 = vsubl_u8 vb01234567 (replicate 8 vb_zero_point)
         in Some (map2 (\<lambda>vacc_i vxa_i. vmlal_lane_s16 vacc_i vxb01234567 vxa_i lane) vacc vxa,
                  w'))"

text \<open>\<open>for (; k >= 8; k -= 8)\<close>: eight blocks per iteration, every row pointer advanced by 8.\<close>

function channel_loop ::
  "memory \<Rightarrow> u8 \<Rightarrow> size_t \<Rightarrow> ptr list \<Rightarrow> i32 list list \<times> u8 list
     \<Rightarrow> (size_t \<times> ptr list \<times> i32 list list \<times> u8 list) option" where
  "channel_loop mem vb_zero_point k a07 st =
     (if 8 \<le> k then
        (let vxa = map (\<lambda>p. vmovl_u8 (vld1_u8 mem p)) a07;
             a07' = map (\<lambda>p. p + 8) a07
         in case fold (\<lambda>lane r. Option.bind r (mac_lane vb_zero_point vxa lane))
                   [0, 1, 2, 3, 4, 5, 6, 7] (Some st) of
              None \<Rightarrow> None
            | Some st' \<Rightarrow> channel_loop mem vb_zero_point (k - 8) a07' st')
      else Some (k, a07, st))"
  by pat_completeness auto
termination
proof (relation "measure (\<lambda>(mem, vb_zero_point, k, a07, st). unat k)")
  show "wf (measure (\<lambda>(mem, vb_zero_point, k, a07, st). unat k))" by simp
next
  fix mem :: memory and vb_zero_point :: u8 and k :: size_t and a07 :: "ptr list"
    and st st' :: "i32 list list \<times> u8 list" and vxa :: "i16 list list" and a07' :: "ptr list"
  assume "8 \<le> k"
  then have "unat (k - 8) = unat k - unat (8::size_t)" by (rule unat_sub)
  moreover have "unat (8::size_t) \<le> unat k" using \<open>8 \<le> k\<close> by (simp only: word_le_nat_alt)
  ultimately show "((mem, vb_zero_point, k - 8, a07', st'), (mem, vb_zero_point, k, a07, st))
          \<in> measure (\<lambda>(mem, vb_zero_point, k, a07, st). unat k)"
    by simp
qed

text \<open>
  The remainder \<open>k\<close> of the channels: each row is loaded as the 8 bytes that end with its
  last channel and shifted by \<open>va_shift = -8 * a_predecrement\<close>; then the nested conditionals
  process lanes \<open>0 .. k - 1\<close>.
\<close>

definition tail_load :: "memory \<Rightarrow> size_t \<Rightarrow> ptr \<Rightarrow> u8 list" where
  "tail_load mem k p =
     (let a_predecrement = 8 - k;
          va_shift = - 8 * a_predecrement
      in vreinterpret_u8_u64
           (vshl_u64 (vreinterpret_u64_u8 (vld1_u8 mem (p - a_predecrement))) va_shift))"

definition channel_tail ::
  "memory \<Rightarrow> u8 \<Rightarrow> size_t \<Rightarrow> ptr list \<Rightarrow> i32 list list \<times> u8 list
     \<Rightarrow> (i32 list list \<times> u8 list) option" where
  "channel_tail mem vb_zero_point k a07 st =
     (let vxa = map (\<lambda>p. vmovl_u8 (tail_load mem k p)) a07
      in Option.bind (mac_lane vb_zero_point vxa 0 st) (\<lambda>st.
         if 2 \<le> k then Option.bind (mac_lane vb_zero_point vxa 1 st) (\<lambda>st.
           if 2 < k then Option.bind (mac_lane vb_zero_point vxa 2 st) (\<lambda>st.
             if 4 \<le> k then Option.bind (mac_lane vb_zero_point vxa 3 st) (\<lambda>st.
               if 4 < k then Option.bind (mac_lane vb_zero_point vxa 4 st) (\<lambda>st.
                 if 6 \<le> k then Option.bind (mac_lane vb_zero_point vxa 5 st) (\<lambda>st.
                   if 6 < k then mac_lane vb_zero_point vxa 6 st else Some st)
                 else Some st)
               else Some st)
             else Some st)
           else Some st)
         else Some st))"

text \<open>The body of the \<open>do ... while (--ks != 0)\<close> loop: one kernel site.\<close>

definition kernel_site ::
  "memory \<Rightarrow> u8 \<Rightarrow> size_t \<Rightarrow> i32 list list \<times> u8 list \<times> ptr list
     \<Rightarrow> (i32 list list \<times> u8 list \<times> ptr list) option" where
  "kernel_site mem vb_zero_point kc = (\<lambda>(vacc, w, a).
     if length a < 8 then None
     else
       case channel_loop mem vb_zero_point kc (take 8 a) (vacc, w) of
         None \<Rightarrow> None
       | Some (k, a07, st) \<Rightarrow>
           (case (if k \<noteq> 0 then channel_tail mem vb_zero_point k a07 st else Some st) of
              None \<Rightarrow> None
            | Some (vacc', w') \<Rightarrow> Some (vacc', w', drop 8 a)))"

function site_loop ::
  "memory \<Rightarrow> u8 \<Rightarrow> size_t \<Rightarrow> size_t \<Rightarrow> i32 list list \<times> u8 list \<times> ptr list
     \<Rightarrow> (i32 list list \<times> u8 list \<times> ptr list) option" where
  "site_loop mem vb_zero_point kc ks st =
     (case kernel_site mem vb_zero_point kc st of
        None \<Rightarrow> None
      | Some st' \<Rightarrow> if ks - 1 \<noteq> 0 then site_loop mem vb_zero_point kc (ks - 1) st' else Some st')"
  by pat_completeness auto
termination
proof (relation "measure (\<lambda>(mem, vb_zero_point, kc, ks, st). unat (ks - 1))")
  show "wf (measure (\<lambda>(mem, vb_zero_point, kc, ks, st). unat (ks - 1)))" by simp
next
  fix mem :: memory and vb_zero_point :: u8 and kc ks :: size_t
    and st st' :: "i32 list list \<times> u8 list \<times> ptr list"
  assume "ks - 1 \<noteq> 0"
  then have "unat (ks - 1 - 1) < unat (ks - 1)" by (rule measure_unat)
  then show "((mem, vb_zero_point, kc, ks - 1, st'), (mem, vb_zero_point, kc, ks, st))
          \<in> measure (\<lambda>(mem, vb_zero_point, kc, ks, st). unat (ks - 1))"
    by simp
qed

declare channel_loop.simps [simp del] site_loop.simps [simp del]

text \<open>Bias load and the whole reduction: the 64 accumulators and what is left of \<open>w\<close>, \<open>a\<close>.\<close>

definition accumulate ::
  "memory \<Rightarrow> u8 \<Rightarrow> size_t \<Rightarrow> size_t \<Rightarrow> ptr list \<Rightarrow> u8 list
     \<Rightarrow> (i32 list list \<times> u8 list \<times> ptr list) option" where
  "accumulate mem vb_zero_point kc ks a w =
     (case vld1q_s32 w of
        None \<Rightarrow> None
      | Some (vacc0x0123, w) \<Rightarrow>
          (case vld1q_s32 w of
             None \<Rightarrow> None
           | Some (vacc0x4567, w) \<Rightarrow>
               site_loop mem vb_zero_point kc ks
                 (replicate 8 (vacc0x0123 @ vacc0x4567), w, a)))"

subsection \<open>Requantization\<close>

text \<open>What the kernel does to one accumulator lane between the reduction and the store.\<close>

definition requantize :: "neon_params \<Rightarrow> i32 \<Rightarrow> u8" where
  "requantize params vacc =
     (let vmultiplier = multiplier params;
          vacc = vqrdmulhq_s32 vacc vmultiplier;
          vright_shift = right_shift params;
          vzero_shift_mask = vceqq_s32 vright_shift 0;
          vacc = vsraq_n_s32 vacc (vbicq_s32 vacc vzero_shift_mask) 31;
          vacc = vrshlq_s32 vacc vright_shift;
          voutput_zero_point = output_zero_point params;
          vacc16 = vqaddq_s16 (vqmovn_s32 vacc) voutput_zero_point;
          vout = vqmovun_s16 vacc16;
          vout = max vout (output_min params);
          vout = min vout (output_max params)
      in vout)"

subsection \<open>Store\<close>

text \<open>
  The row pointers \<open>c0 .. c7\<close>, rows beyond \<open>mr\<close> folded onto the last valid row, and the
  four 16-byte vectors \<open>vout0x01234567_1x01234567\<close> ... each holding two rows.
\<close>

definition row_pointers :: "size_t \<Rightarrow> ptr \<Rightarrow> size_t \<Rightarrow> ptr list" where
  "row_pointers mr c c_stride =
     (let c0 = c;
          c1 = (if mr < 2 then c0 else c0 + c_stride);
          c2 = (if mr \<le> 2 then c1 else c1 + c_stride);
          c3 = (if mr < 4 then c2 else c2 + c_stride);
          c4 = (if mr \<le> 4 then c3 else c3 + c_stride);
          c5 = (if mr < 6 then c4 else c4 + c_stride);
          c6 = (if mr \<le> 6 then c5 else c5 + c_stride);
          c7 = (if mr \<noteq> 8 then c6 else c6 + c_stride)
      in [c0, c1, c2, c3, c4, c5, c6, c7])"

text \<open>
  One group of eight stores (\<open>vst1_u8\<close> of a half vector for \<open>n = 8\<close>, \<open>vst1q_lane_u32\<close>,
  \<open>vst1q_lane_u16\<close> and \<open>vst1q_lane_u8\<close> for \<open>n = 4, 2, 1\<close>): row \<open>i\<close> stores \<open>n\<close> bytes, taken
  from the low half of its vector for an even row (lane 0) and from the high half, byte 8 on,
  for an odd row (lanes 2, 4 and 8 of the respective lane width).
\<close>

definition store_lanes :: "nat \<Rightarrow> ptr list \<Rightarrow> u8 list list \<Rightarrow> memory \<Rightarrow> memory" where
  "store_lanes n cs vout mem =
     fold (\<lambda>i mem. store_bytes mem (cs ! i) (take n (drop (8 * (i mod 2)) (vout ! (i div 2)))))
       [0, 1, 2, 3, 4, 5, 6, 7] mem"

definition store_block ::
  "size_t \<Rightarrow> size_t \<Rightarrow> ptr \<Rightarrow> size_t \<Rightarrow> u8 list list \<Rightarrow> memory \<Rightarrow> memory" where
  "store_block mr nr c c_stride vout mem =
     (let cs = row_pointers mr c c_stride
      in if nr = 8 then store_lanes 8 cs vout mem
         else
           let (cs, vout, nr, mem) =
                 (if 4 \<le> nr
                  then (map (\<lambda>p. p + 4) cs, map (\<lambda>v. vextq_u8 v v 4) vout, nr - 4,
                        store_lanes 4 cs vout mem)
                  else (cs, vout, nr, mem));
               (cs, vout, nr, mem) =
                 (if 2 \<le> nr
                  then (map (\<lambda>p. p + 2) cs, map (\<lambda>v. vextq_u8 v v 2) vout, nr - 2,
                        store_lanes 2 cs vout mem)
                  else (cs, vout, nr, mem))
           in if nr \<noteq> 0 then store_lanes 1 cs vout mem else mem)"

subsection \<open>The kernel\<close>

definition q8conv_ukernel_8x8__neon ::
  "size_t \<Rightarrow> size_t \<Rightarrow> size_t \<Rightarrow> size_t \<Rightarrow> ptr list \<Rightarrow> u8 list \<Rightarrow> ptr \<Rightarrow> size_t
     \<Rightarrow> neon_params \<Rightarrow> memory \<Rightarrow> memory option" where
  "q8conv_ukernel_8x8__neon mr nr kc ks a w c c_stride quantization_params mem =
     (case accumulate mem (kernel_zero_point quantization_params) kc ks a w of
        None \<Rightarrow> None
      | Some (vacc, w', a') \<Rightarrow>
          let rows = map (map (requantize quantization_params)) vacc;
              vout = map (\<lambda>i. rows ! (2 * i) @ rows ! (2 * i + 1)) [0, 1, 2, 3]
          in Some (store_block mr nr c c_stride vout mem))"

subsection \<open>The reference of the specification\<close>

text \<open>
  The requantization formula as the specification words it, on unbounded integers:
  \<open>out(a) = clamp(sat_u8(sat_i16(round_rshift(sat_qrdmulh(a, M), S) + Z)), lo, hi)\<close>, where
  \<open>round_rshift\<close> rounds to nearest, ties towards plus infinity for a non-negative and
  towards minus infinity for a negative input, and does nothing for \<open>S = 0\<close>.
\<close>

definition spec_sat :: "int \<Rightarrow> int \<Rightarrow> int \<Rightarrow> int" where
  "spec_sat lo hi x = max lo (min hi x)"

definition spec_sat_qrdmulh :: "int \<Rightarrow> int \<Rightarrow> int" where
  "spec_sat_qrdmulh a m = spec_sat (- (2 ^ 31)) (2 ^ 31 - 1) ((2 * a * m + 2 ^ 31) div 2 ^ 32)"

definition spec_round_rshift :: "int \<Rightarrow> nat \<Rightarrow> int" where
  "spec_round_rshift x s =
     (if s = 0 then x
      else if 0 \<le> x then (x + 2 ^ (s - 1)) div 2 ^ s
      else - ((- x + 2 ^ (s - 1)) div 2 ^ s))"

definition spec_out :: "int \<Rightarrow> int \<Rightarrow> nat \<Rightarrow> int \<Rightarrow> int \<Rightarrow> int \<Rightarrow> int" where
  "spec_out a m s z lo hi =
     spec_sat lo hi
       (spec_sat 0 255
          (spec_sat (- (2 ^ 15)) (2 ^ 15 - 1) (spec_round_rshift (spec_sat_qrdmulh a m) s + z)))"

text \<open>
  The same with the shifted value narrowed to 16 bits before the zero point is added, as the
  specification's step 3 describes it.
\<close>

definition spec_out_narrowed :: "int \<Rightarrow> int \<Rightarrow> nat \<Rightarrow> int \<Rightarrow> int \<Rightarrow> int \<Rightarrow> int" where
  "spec_out_narrowed a m s z lo hi =
     spec_sat lo hi
       (spec_sat 0 255
          (spec_sat (- (2 ^ 15)) (2 ^ 15 - 1)
             (spec_sat (- (2 ^ 15)) (2 ^ 15 - 1) (spec_round_rshift (spec_sat_qrdmulh a m) s)
                + z)))"

subsection \<open>Concrete kernel inputs\<close>

text \<open>
  One output pixel with 8 input channels: every activation byte is 3 and lies at addresses
  4096 .. 4103, every weight byte is 5 behind a zero bias, and the output block starts at
  8192.
\<close>

definition scenario_mem :: memory where
  "scenario_mem = (\<lambda>p. if 4096 \<le> p \<and> p < 4104 then 3 else 0)"

definition scenario_a :: "ptr list" where
  "scenario_a = replicate 8 4096"

definition scenario_w :: "u8 list" where
  "scenario_w = replicate 32 0 @ replicate 64 5"

text \<open>Multiplier \<open>2 ^ 30\<close> and a shift to the right by 30, which the field holds negated.\<close>

definition scenario_params :: neon_params where
  "scenario_params = \<lparr>kernel_zero_point = 0, multiplier = 1073741824, right_shift = - 30,
     output_zero_point = 0, output_min = 0, output_max = 255\<rparr>"

text \<open>The largest multiplier, no shift and the most negative output zero point.\<close>

definition extreme_zero_point_params :: neon_params where
  "extreme_zero_point_params = \<lparr>kernel_zero_point = 0, multiplier = 2147483647, right_shift = 0,
     output_zero_point = - 32768, output_min = 0, output_max = 255\<rparr>"

text \<open>A memory in which every byte holds the low 8 bits of its own address.\<close>

definition address_mem :: memory where
  "address_mem = (\<lambda>p. ucast p)"

text \<open>A packed weight stream of 132 bytes: zero bias, then weight bytes 5.\<close>

definition tail_w :: "u8 list" where
  "tail_w = replicate 32 0 @ replicate 100 5"

subsection \<open>Reading the weight stream\<close>

text \<open>
  \<open>reads n f\<close>: the step \<open>f\<close> needs \<open>n\<close> bytes of the stream, fails on a shorter one, and leaves
  everything behind the first \<open>n\<close> bytes unread, whatever follows them.
\<close>

definition reads :: "nat \<Rightarrow> ('s \<times> u8 list \<Rightarrow> ('s \<times> u8 list) option) \<Rightarrow> bool" where
  "reads n f =
     (\<forall>s w. (length w < n \<longrightarrow> f (s, w) = None)
          \<and> (n \<le> length w \<longrightarrow> (\<exists>s'. \<forall>x. f (s, w @ x) = Some (s', drop n w @ x))))"

section \<open>Facts about the planners\<close>

lemma unat_succ_less: "i < n \<Longrightarrow> unat (i + 1) = Suc (unat (i::'a::len word))"
proof -
  assume "i < n"
  then have "unat i < unat n" by (simp add: word_less_nat_alt)
  moreover have "unat n < 2 ^ LENGTH('a)" by (rule unsigned_less)
  ultimately have "Suc (unat i) < 2 ^ LENGTH('a)" by linarith
  then have "unat i + unat (1::'a word) < 2 ^ LENGTH('a)" by simp
  then have "unat (i + 1) = unat i + unat (1::'a word)"
    by (simp only: unat_add_lem)
  then show ?thesis by simp
qed

lemma word_range_Cons: "i < n \<Longrightarrow> word_range i n = i # word_range (i + 1) n"
  by (simp add: word_range_def upt_conv_Cons word_less_nat_alt unat_succ_less)

lemma word_range_Nil: "\<not> i < n \<Longrightarrow> word_range i n = []"
  by (simp add: word_range_def word_less_nat_alt)

lemma for_loop_fold: "for_loop i n body s = fold body (word_range i n) s"
proof (induction i n body s rule: for_loop.induct)
  case (1 i n body s)
  show ?case
  proof (cases "i < n")
    case True
    with 1 show ?thesis by (subst for_loop.simps) (simp add: word_range_Cons)
  next
    case False
    then show ?thesis by (subst for_loop.simps) (simp add: word_range_Nil)
  qed
qed

lemma set_word_range: "set (word_range i n) = {x. i \<le> x \<and> x < n}"
proof -
  have "\<And>x. (x \<in> set (word_range i n)) = (i \<le> x \<and> x < n)"
  proof -
    fix x :: size_t
    show "(x \<in> set (word_range i n)) = (i \<le> x \<and> x < n)"
    proof
      assume "x \<in> set (word_range i n)"
      then obtain k where k: "unat i \<le> k" "k < unat n" "x = of_nat k"
        by (auto simp: word_range_def)
      have "k \<le> unat n" using k(2) by simp
      then have "unat x = k" using k(3) by (simp add: le_unat_uoi)
      with k show "i \<le> x \<and> x < n" by (simp add: word_le_nat_alt word_less_nat_alt)
    next
      assume "i \<le> x \<and> x < n"
      then have "unat i \<le> unat x" "unat x < unat n"
        by (simp_all add: word_le_nat_alt word_less_nat_alt)
      then have "unat x \<in> {unat i..<unat n}" by simp
      then have "(of_nat (unat x) :: size_t) \<in> of_nat ` {unat i..<unat n}" by (rule imageI)
      then show "x \<in> set (word_range i n)" by (simp add: word_range_def)
    qed
  qed
  then show ?thesis by blast
qed

lemma fold_product:
  "fold (\<lambda>a. fold (f a) ys) xs s = fold (\<lambda>(a, b). f a b) (List.product xs ys) s"
  by (induction xs arbitrary: s) (simp_all add: fold_map comp_def)

lemma fold_upd_snoc:
  "fold (\<lambda>t buf. buf (idx t := val t)) (ts @ [x]) buf i
     = (if i = idx x then val x else fold (\<lambda>t buf. buf (idx t := val t)) ts buf i)"
  by simp


lemma fold_upd_written:
  "t \<in> set ts \<Longrightarrow> \<forall>t' \<in> set ts. idx t' = idx t \<longrightarrow> val t' = val t
     \<Longrightarrow> fold (\<lambda>t buf. buf (idx t := val t)) ts buf (idx t) = val t"
proof (induction ts rule: rev_induct)
  case Nil
  then show ?case by simp
next
  case (snoc x xs)
  show ?case
  proof (cases "idx x = idx t")
    case True
    with snoc.prems(2) have "val x = val t" by simp
    with True show ?thesis by (simp only: fold_upd_snoc) simp
  next
    case False
    with snoc.prems(1) have "t \<in> set xs" by auto
    moreover from snoc.prems(2) have "\<forall>t' \<in> set xs. idx t' = idx t \<longrightarrow> val t' = val t" by simp
    ultimately have "fold (\<lambda>t buf. buf (idx t := val t)) xs buf (idx t) = val t"
      by (rule snoc.IH)
    with False show ?thesis by (simp only: fold_upd_snoc) simp
  qed
qed


lemma for_loop_fold': "for_loop i n body = fold body (word_range i n)"
  by (rule ext) (rule for_loop_fold)

lemma fold_product': "fold (\<lambda>a. fold (f a) ys) xs = fold (\<lambda>(a, b). f a b) (List.product xs ys)"
  by (rule ext) (rule fold_product)



lemma if_upd: "(if c then f (i := a) else f (i := b)) = f (i := (if c then a else b))"
  by simp


lemma digit_less: "(n::nat) < N \<Longrightarrow> d < H \<Longrightarrow> n * H + d < N * H"
proof -
  assume a: "n < N" "d < H"
  then have "n * H + d < Suc n * H" by simp
  also have "\<dots> \<le> N * H" using a(1) by (intro mult_le_mono1) simp
  finally show ?thesis .
qed

lemma le_mult_ge1: "(1::nat) \<le> c \<Longrightarrow> a \<le> a * c"
  by (cases c) simp_all

lemma le_add_mult_ge1: "(1::nat) \<le> c \<Longrightarrow> a \<le> (a + b) * c"
  by (cases c) simp_all

lemma unat_mult_nowrap:
  "unat a = x \<Longrightarrow> unat b = y \<Longrightarrow> x * y < 2 ^ 64 \<Longrightarrow> unat (a * b :: size_t) = x * y"
  using unat_mult_lem [of a b] by simp

lemma unat_add_nowrap:
  "unat a = x \<Longrightarrow> unat b = y \<Longrightarrow> x + y < 2 ^ 64 \<Longrightarrow> unat (a + b :: size_t) = x + y"
  using unat_add_lem [of a b] by simp







lemma for_loop_m_total:
  "(\<And>x s. body x s = Some (f x s)) \<Longrightarrow> for_loop_m i n body s = Some (fold f (word_range i n) s)"
proof (induction i n body s rule: for_loop_m.induct)
  case (1 i n body s)
  show ?case
  proof (cases "i < n")
    case True
    have "for_loop_m (i + 1) n body (f i s) = Some (fold f (word_range (i + 1) n) (f i s))"
      using True "1.prems" by (intro "1.IH") simp_all
    with True "1.prems" show ?thesis
      by (subst for_loop_m.simps) (simp add: word_range_Cons)
  next
    case False
    then show ?thesis by (subst for_loop_m.simps) (simp add: word_range_Nil)
  qed
qed

lemma for_loop_m_Some:
  "for_loop_m i n (\<lambda>x s. Some (f x s)) = (\<lambda>s. Some (fold f (word_range i n) s))"
  by (rule ext) (rule for_loop_m_total, rule refl)

lemma for_step_from:
  assumes step: "0 < unat step" and dvd: "unat step dvd unat n"
    and j: "j \<le> unat n div unat step"
  shows "for_step (of_nat j * step) n step (\<lambda>x s. Some (f x s)) s
           = Some (fold f (map (\<lambda>j. of_nat j * step) [j..<unat n div unat step]) s)"
  using j
proof (induction "unat n div unat step - j" arbitrary: j s)
  case 0
  then have jJ: "j = unat n div unat step" by simp
  with dvd have "j * unat step = unat n" by simp
  then have "(of_nat (j * unat step) :: size_t) = of_nat (unat n)" by simp
  then have "of_nat j * step = n" by simp
  then show ?case
    by (subst for_step.simps) (simp add: jJ)
next
  case (Suc k)
  let ?J = "unat n div unat step"
  let ?i = "of_nat j * step :: size_t"
  from Suc have jlt: "j < ?J" by simp
  have "Suc j * unat step \<le> ?J * unat step" using jlt by (intro mult_le_mono1) simp
  also have "\<dots> = unat n" using dvd by simp
  finally have b: "j * unat step + unat step \<le> unat n" by simp
  have n64: "unat n < 2 ^ 64" using unsigned_less [of n, where 'a = nat] by simp
  have "j \<le> j * unat step" using step by (intro le_mult_ge1) simp
  with b have "j \<le> unat n" by linarith
  then have uj: "unat (of_nat j :: size_t) = j" by (rule le_unat_uoi)
  have ui: "unat ?i = j * unat step"
    using b n64 by (intro unat_mult_nowrap uj refl) linarith
  have lt: "?i < n" using ui b step by (simp add: word_less_nat_alt)
  have next_i: "?i + step = of_nat (Suc j) * step" by (simp add: algebra_simps)
  have "for_step (of_nat (Suc j) * step) n step (\<lambda>x s. Some (f x s)) (f ?i s)
          = Some (fold f (map (\<lambda>j. of_nat j * step) [Suc j..<?J]) (f ?i s))"
    using Suc.hyps(2) jlt by (intro Suc.hyps(1)) simp_all
  then have "for_step ?i n step (\<lambda>x s. Some (f x s)) s
          = Some (fold f (map (\<lambda>j. of_nat j * step) [Suc j..<?J]) (f ?i s))"
    using lt by (subst for_step.simps) (simp only: next_i if_True option.case)
  then show ?case using jlt by (simp add: upt_conv_Cons)
qed

lemma for_step_Some:
  "0 < unat step \<Longrightarrow> unat step dvd unat n \<Longrightarrow>
     for_step 0 n step (\<lambda>x s. Some (f x s)) = (\<lambda>s. Some (fold f (step_range n step) s))"
  using for_step_from [where j = 0 and step = step and n = n and f = f]
  by (simp add: step_range_def fun_eq_iff)

lemma set_step_range:
  assumes step: "0 < unat step" and dvd: "unat step dvd unat n"
  shows "(t \<in> set (step_range n step)) = (t < n \<and> unat step dvd unat t)"
proof
  let ?J = "unat n div unat step"
  assume "t \<in> set (step_range n step)"
  then obtain j where j: "j < ?J" "t = of_nat j * step" by (auto simp: step_range_def)
  have "Suc j * unat step \<le> ?J * unat step" using j(1) by (intro mult_le_mono1) simp
  also have "\<dots> = unat n" using dvd by simp
  finally have b: "j * unat step + unat step \<le> unat n" by simp
  have n64: "unat n < 2 ^ 64" using unsigned_less [of n, where 'a = nat] by simp
  have "j \<le> j * unat step" using step by (intro le_mult_ge1) simp
  with b have "j \<le> unat n" by linarith
  then have uj: "unat (of_nat j :: size_t) = j" by (rule le_unat_uoi)
  have ui: "unat t = j * unat step"
    unfolding j(2) using b n64 by (intro unat_mult_nowrap uj refl) linarith
  show "t < n \<and> unat step dvd unat t" using ui b step by (simp add: word_less_nat_alt)
next
  let ?J = "unat n div unat step"
  assume a: "t < n \<and> unat step dvd unat t"
  then obtain j where j: "unat t = j * unat step" by (auto simp: dvd_def mult.commute)
  from a have "unat t < unat n" by (simp add: word_less_nat_alt)
  moreover have "?J * unat step = unat n" using dvd by simp
  ultimately have "j * unat step < ?J * unat step" using j by simp
  then have "j < ?J" by simp
  moreover have "(of_nat (unat t) :: size_t) = of_nat (j * unat step)" using j by simp
  then have "t = of_nat j * step" by simp
  ultimately show "t \<in> set (step_range n step)" by (auto simp: step_range_def)
qed

lemma if_Some_upd:
  "(if c then Some (f (i := a)) else Some (f (i := b))) = Some (f (i := (if c then a else b)))"
  by simp

lemma if_fold_upd:
  "(if c then fold (\<lambda>x buf. buf (i x := a x)) xs buf else fold (\<lambda>x buf. buf (i x := b x)) xs buf)
     = fold (\<lambda>x buf. buf (i x := (if c then a x else b x))) xs buf"
  by simp

lemma if_nested_conj: "(if c then (if d then a else z) else z) = (if c \<and> d then a else z)"
  by simp

lemma conv2d_tile_offset_flat:
  "conv2d_tile_offset op mr T g n t0 d =
     fold (\<lambda>ky. fold (\<lambda>kx buf.
        buf (conv2d_index op mr T g n t0 d ky kx := conv2d_value op g n t0 d ky kx))
        (word_range 0 (kernel_width op))) (word_range 0 (kernel_height op))"
  unfolding conv2d_tile_offset_def fxdiv_divide_size_t_def Let_def prod.case for_loop_fold'
    conv2d_value_def if_upd if_fold_upd if_nested_conj
  by (simp add: fun_eq_iff)

lemma deconv2d_tile_offset_flat:
  "output_width op \<noteq> 0 \<Longrightarrow> stride_height op \<noteq> 0 \<Longrightarrow> stride_width op \<noteq> 0 \<Longrightarrow>
   deconv2d_tile_offset op mr T g n t0 d =
     (\<lambda>buf. Some (fold (\<lambda>ky. fold (\<lambda>kx buf.
        buf (conv2d_index op mr T g n t0 d ky kx := deconv2d_value op g n t0 d ky kx))
        (word_range 0 (kernel_width op))) (word_range 0 (kernel_height op)) buf))"
  unfolding deconv2d_tile_offset_def Let_def deconv2d_value_def
  by (simp add: if_Some_upd for_loop_m_Some fun_eq_iff)

lemma conv2d_tile_offset_flat':
  "conv2d_tile_offset op mr T g n t0 =
     (\<lambda>d. fold (\<lambda>ky. fold (\<lambda>kx buf.
        buf (conv2d_index op mr T g n t0 d ky kx := conv2d_value op g n t0 d ky kx))
        (word_range 0 (kernel_width op))) (word_range 0 (kernel_height op)))"
  by (rule ext) (rule conv2d_tile_offset_flat)

lemma deconv2d_tile_offset_flat':
  "output_width op \<noteq> 0 \<Longrightarrow> stride_height op \<noteq> 0 \<Longrightarrow> stride_width op \<noteq> 0 \<Longrightarrow>
   deconv2d_tile_offset op mr T g n t0 =
     (\<lambda>d buf. Some (fold (\<lambda>ky. fold (\<lambda>kx buf.
        buf (conv2d_index op mr T g n t0 d ky kx := deconv2d_value op g n t0 d ky kx))
        (word_range 0 (kernel_width op))) (word_range 0 (kernel_height op)) buf))"
  by (rule ext) (simp add: deconv2d_tile_offset_flat)

lemma conv2d_flat:
  assumes "output_width op \<noteq> 0" "0 < unat mr" "unat mr dvd unat T"
  shows "qnnp_indirection_init_conv2d op mr T =
     Some (fold (\<lambda>t buf. buf (conv_site_index op mr T t := conv2d_site_value op t))
             (conv_sites op mr T) (indirection_buffer op))"
proof -
  have "(\<lambda>t buf. buf (conv_site_index op mr T t := conv2d_site_value op t))
          = (\<lambda>(g, n, t0, d, ky, kx) buf.
               buf (conv2d_index op mr T g n t0 d ky kx := conv2d_value op g n t0 d ky kx))"
    by (simp add: fun_eq_iff conv_site_index_def conv2d_site_value_def)
  then show ?thesis
    using assms
    apply (simp only: qnnp_indirection_init_conv2d_def if_False)
    apply (simp only: conv2d_tile_offset_flat' for_loop_fold')
    apply (simp only: for_step_Some for_loop_m_Some)
    apply (simp only: fold_product' conv_sites_def)
    done
qed

lemma deconv2d_flat:
  assumes "output_width op \<noteq> 0" "stride_height op \<noteq> 0" "stride_width op \<noteq> 0"
    "0 < unat mr" "unat mr dvd unat T"
  shows "qnnp_indirection_init_deconv2d op mr T =
     Some (fold (\<lambda>t buf. buf (conv_site_index op mr T t := deconv2d_site_value op t))
             (conv_sites op mr T) (indirection_buffer op))"
proof -
  have "(\<lambda>t buf. buf (conv_site_index op mr T t := deconv2d_site_value op t))
          = (\<lambda>(g, n, t0, d, ky, kx) buf.
               buf (conv2d_index op mr T g n t0 d ky kx := deconv2d_value op g n t0 d ky kx))"
    by (simp add: fun_eq_iff conv_site_index_def deconv2d_site_value_def)
  then show ?thesis
    using assms
    apply (simp only: qnnp_indirection_init_deconv2d_def)
    apply (simp only: deconv2d_tile_offset_flat' [OF assms(1-3)])
    apply (simp only: for_step_Some for_loop_m_Some)
    apply (simp only: fold_product' conv_sites_def)
    done
qed

lemma set_conv_sites:
  assumes "0 < unat mr" "unat mr dvd unat T"
  shows "((g, n, t0, d, ky, kx) \<in> set (conv_sites op mr T)) =
     (g < groups op \<and> n < batch_size op \<and> t0 < T \<and> unat mr dvd unat t0 \<and> d < mr
        \<and> ky < kernel_height op \<and> kx < kernel_width op)"
  using assms by (simp add: conv_sites_def set_word_range set_step_range)

lemma le_horner: "(1::nat) \<le> c \<Longrightarrow> a \<le> a * c + b"
  by (cases c) simp_all

lemma horner_unat:
  "unat a = x \<Longrightarrow> unat m = M \<Longrightarrow> unat d = D \<Longrightarrow> x * M + D < 2 ^ 64
     \<Longrightarrow> unat (a * m + d :: size_t) = x * M + D"
proof -
  assume a: "unat a = x" "unat m = M" "unat d = D" "x * M + D < 2 ^ 64"
  then have "x * M < 2 ^ 64" by linarith
  then have "unat (a * m) = x * M" by (intro unat_mult_nowrap a)
  then show ?thesis using a(4) by (intro unat_add_nowrap a) 
qed

lemma digit_unique:
  "a * m + d = a' * m + d' \<Longrightarrow> d < m \<Longrightarrow> d' < m \<Longrightarrow> a = a' \<and> d = (d'::nat)"
proof -
  assume e: "a * m + d = a' * m + d'" and d: "d < m" "d' < m"
  have "(a * m + d) div m = a" "(a' * m + d') div m = a'" using d by simp_all
  with e have "a = a'" by simp
  with e show ?thesis by simp
qed

lemma word_eq_unatI: "unat a = unat b \<Longrightarrow> a = (b::size_t)"
  by (simp add: word_unat_eq_iff)

lemma conv2d_index_unat:
  assumes M1: "1 \<le> unat mr" and T_eq: "unat T = J * unat mr"
    and slots: "unat (groups op) * unat (batch_size op) * unat T
                  * (unat (kernel_height op) * unat (kernel_width op)) < 2 ^ 64"
    and g: "g < groups op" and n: "n < batch_size op"
    and t0: "t0 < T" and t0_eq: "unat t0 = j * unat mr" and d: "d < mr"
    and ky: "ky < kernel_height op" and kx: "kx < kernel_width op"
  shows "unat (conv2d_index op mr T g n t0 d ky kx)
           = (((unat g * unat (batch_size op) + unat n) * J + j)
                  * (unat (kernel_height op) * unat (kernel_width op))
                + (unat ky * unat (kernel_width op) + unat kx)) * unat mr + unat d"
proof -
  let ?G = "unat (groups op)" and ?N = "unat (batch_size op)"
  let ?kH = "unat (kernel_height op)" and ?kW = "unat (kernel_width op)"
  let ?M = "unat mr"
  let ?ks = "?kH * ?kW" and ?k = "unat ky * ?kW + unat kx"
  from g n t0 d ky kx have lt: "unat g < ?G" "unat n < ?N" "unat t0 < unat T" "unat d < ?M"
    "unat ky < ?kH" "unat kx < ?kW"
    by (simp_all add: word_less_nat_alt)
  have "j * ?M < J * ?M" using lt(3) T_eq t0_eq by simp
  then have jJ: "j < J" by simp
  have k: "?k < ?ks" using lt(5,6) by (rule digit_less)
  have p1: "unat g * ?N + unat n < ?G * ?N" using lt(1,2) by (rule digit_less)
  have p2: "(unat g * ?N + unat n) * J + j < ?G * ?N * J" using p1 jJ by (rule digit_less)
  have p3: "((unat g * ?N + unat n) * J + j) * ?ks + ?k < ?G * ?N * J * ?ks"
    using p2 k by (rule digit_less)
  have p4: "(((unat g * ?N + unat n) * J + j) * ?ks + ?k) * ?M + unat d
              < ?G * ?N * J * ?ks * ?M"
    using p3 lt(4) by (rule digit_less)
  have e: "?G * ?N * J * ?ks * ?M = ?G * ?N * unat T * ?ks"
    unfolding T_eq by (simp add: mult_ac)
  have tot: "(((unat g * ?N + unat n) * J + j) * ?ks + ?k) * ?M + unat d < 2 ^ 64"
    using p4 slots e by linarith
  have J1: "1 \<le> J" using jJ by linarith
  have ks1: "1 \<le> ?ks" using k by linarith
  have b3: "((unat g * ?N + unat n) * J + j) * ?ks + ?k
              \<le> (((unat g * ?N + unat n) * J + j) * ?ks + ?k) * ?M + unat d"
    using M1 by (rule le_horner)
  have b2: "(unat g * ?N + unat n) * J + j \<le> ((unat g * ?N + unat n) * J + j) * ?ks + ?k"
    using ks1 by (rule le_horner)
  have b1: "unat g * ?N + unat n \<le> (unat g * ?N + unat n) * J + j"
    using J1 by (rule le_horner)
  have "1 \<le> ?G * ?N * J" using p2 by linarith
  then have "?ks \<le> ?ks * (?G * ?N * J)" by (rule le_mult_ge1)
  also have "\<dots> = ?G * ?N * J * ?ks" by (simp add: mult_ac)
  also have "\<dots> \<le> ?G * ?N * J * ?ks * ?M" using M1 by (rule le_mult_ge1)
  finally have ks64: "?ks < 2 ^ 64" using e slots by linarith
  define Jw :: size_t where "Jw = of_nat J"
  define jw :: size_t where "jw = of_nat j"
  have "J \<le> J * ?M" using M1 by (rule le_mult_ge1)
  then have "J \<le> unat T" using T_eq by simp
  then have uJ: "unat Jw = J" unfolding Jw_def by (rule le_unat_uoi)
  have "j \<le> j * ?M" using M1 by (rule le_mult_ge1)
  then have "j \<le> unat t0" using t0_eq by simp
  then have uj: "unat jw = j" unfolding jw_def by (rule le_unat_uoi)
  have T64: "J * ?M < 2 ^ 64" using unsigned_less [of T, where 'a = nat] T_eq by simp
  have "unat (Jw * mr) = J * ?M" using T64 by (intro unat_mult_nowrap uJ refl)
  then have Tw: "T = Jw * mr" using T_eq by (intro word_eq_unatI) simp
  have t064: "j * ?M < 2 ^ 64" using unsigned_less [of t0, where 'a = nat] t0_eq by simp
  have "unat (jw * mr) = j * ?M" using t064 by (intro unat_mult_nowrap uj refl)
  then have t0w: "t0 = jw * mr" using t0_eq by (intro word_eq_unatI) simp
  have uks: "unat (kernel_height op * kernel_width op) = ?ks"
    using ks64 by (intro unat_mult_nowrap refl)
  have uk: "unat (ky * kernel_width op + kx) = ?k"
    using k ks64 by (intro horner_unat refl) linarith
  have u1: "unat (g * batch_size op + n) = unat g * ?N + unat n"
    using b1 b2 b3 tot by (intro horner_unat refl) linarith
  have u2: "unat ((g * batch_size op + n) * Jw + jw) = (unat g * ?N + unat n) * J + j"
    using b2 b3 tot by (intro horner_unat u1 uJ uj) linarith
  have u3: "unat (((g * batch_size op + n) * Jw + jw) * (kernel_height op * kernel_width op)
                    + (ky * kernel_width op + kx))
              = ((unat g * ?N + unat n) * J + j) * ?ks + ?k"
    using b3 tot by (intro horner_unat u2 uks uk) linarith
  have u4: "unat ((((g * batch_size op + n) * Jw + jw) * (kernel_height op * kernel_width op)
                    + (ky * kernel_width op + kx)) * mr + d)
              = (((unat g * ?N + unat n) * J + j) * ?ks + ?k) * ?M + unat d"
    using tot by (intro horner_unat u3 refl)
  have "conv2d_index op mr T g n t0 d ky kx
          = (((g * batch_size op + n) * Jw + jw) * (kernel_height op * kernel_width op)
                    + (ky * kernel_width op + kx)) * mr + d"
    unfolding conv2d_index_def Let_def Tw t0w by (simp add: algebra_simps)
  with u4 show ?thesis by simp
qed

lemma conv2d_index_inj:
  assumes tiles: "0 < unat mr" "unat mr dvd unat T"
    and slots: "unat (groups op) * unat (batch_size op) * unat T
                  * (unat (kernel_height op) * unat (kernel_width op)) < 2 ^ 64"
    and s: "g < groups op" "n < batch_size op" "t0 < T" "unat mr dvd unat t0" "d < mr"
      "ky < kernel_height op" "kx < kernel_width op"
    and s': "g' < groups op" "n' < batch_size op" "t0' < T" "unat mr dvd unat t0'" "d' < mr"
      "ky' < kernel_height op" "kx' < kernel_width op"
    and eq: "conv2d_index op mr T g n t0 d ky kx = conv2d_index op mr T g' n' t0' d' ky' kx'"
  shows "g = g' \<and> n = n' \<and> t0 = t0' \<and> d = d' \<and> ky = ky' \<and> kx = kx'"
proof -
  let ?N = "unat (batch_size op)"
  let ?kH = "unat (kernel_height op)" and ?kW = "unat (kernel_width op)"
  let ?M = "unat mr"
  have M1: "1 \<le> ?M" using tiles(1) by linarith
  obtain J where T_eq: "unat T = J * ?M" using tiles(2) by (auto simp: dvd_def mult.commute)
  obtain j where t0_eq: "unat t0 = j * ?M" using s(4) by (auto simp: dvd_def mult.commute)
  obtain j' where t0'_eq: "unat t0' = j' * ?M" using s'(4) by (auto simp: dvd_def mult.commute)
  note u = conv2d_index_unat [OF M1 T_eq slots s(1,2,3) t0_eq s(5,6,7)]
  note u' = conv2d_index_unat [OF M1 T_eq slots s'(1,2,3) t0'_eq s'(5,6,7)]
  from s s' have lt: "unat n < ?N" "unat n' < ?N" "unat d < ?M" "unat d' < ?M"
    "unat ky < ?kH" "unat ky' < ?kH" "unat kx < ?kW" "unat kx' < ?kW"
    "unat t0 < unat T" "unat t0' < unat T"
    by (simp_all add: word_less_nat_alt)
  have "j * ?M < J * ?M" "j' * ?M < J * ?M" using lt(9,10) T_eq t0_eq t0'_eq by simp_all
  then have jJ: "j < J" "j' < J" by simp_all
  have k: "unat ky * ?kW + unat kx < ?kH * ?kW" "unat ky' * ?kW + unat kx' < ?kH * ?kW"
    by (rule digit_less [OF lt(5) lt(7)], rule digit_less [OF lt(6) lt(8)])
  from eq have "unat (conv2d_index op mr T g n t0 d ky kx)
                  = unat (conv2d_index op mr T g' n' t0' d' ky' kx')" by simp
  then have e4: "(((unat g * ?N + unat n) * J + j) * (?kH * ?kW)
                    + (unat ky * ?kW + unat kx)) * ?M + unat d
               = (((unat g' * ?N + unat n') * J + j') * (?kH * ?kW)
                    + (unat ky' * ?kW + unat kx')) * ?M + unat d'"
    unfolding u u' .
  from digit_unique [OF e4 lt(3,4)]
  have e3: "((unat g * ?N + unat n) * J + j) * (?kH * ?kW) + (unat ky * ?kW + unat kx)
              = ((unat g' * ?N + unat n') * J + j') * (?kH * ?kW) + (unat ky' * ?kW + unat kx')"
    and dd: "unat d = unat d'" by simp_all
  from digit_unique [OF e3 k]
  have e2: "(unat g * ?N + unat n) * J + j = (unat g' * ?N + unat n') * J + j'"
    and kk: "unat ky * ?kW + unat kx = unat ky' * ?kW + unat kx'" by simp_all
  from digit_unique [OF e2 jJ]
  have e1: "unat g * ?N + unat n = unat g' * ?N + unat n'" and jj: "j = j'" by simp_all
  from digit_unique [OF e1 lt(1,2)] have gg: "unat g = unat g'" and nn: "unat n = unat n'"
    by simp_all
  from digit_unique [OF kk lt(7,8)] have kyy: "unat ky = unat ky'" and kxx: "unat kx = unat kx'"
    by simp_all
  from jj t0_eq t0'_eq have tt: "unat t0 = unat t0'" by simp
  from gg nn tt dd kyy kxx show ?thesis by (intro conjI word_eq_unatI)
qed

lemma conv_plan_entry:
  assumes tiles: "0 < unat mr" "unat mr dvd unat T"
    and slots: "unat (groups op) * unat (batch_size op) * unat T
                  * (unat (kernel_height op) * unat (kernel_width op)) < 2 ^ 64"
    and s: "g < groups op" "n < batch_size op" "t0 < T" "unat mr dvd unat t0" "d < mr"
      "ky < kernel_height op" "kx < kernel_width op"
  shows "fold (\<lambda>t buf. buf (conv_site_index op mr T t := val t)) (conv_sites op mr T) buf
           (conv2d_index op mr T g n t0 d ky kx) = val (g, n, t0, d, ky, kx)"
proof -
  let ?t = "(g, n, t0, d, ky, kx)"
  have mem: "?t \<in> set (conv_sites op mr T)" using s by (simp add: set_conv_sites [OF tiles])
  have "\<forall>t' \<in> set (conv_sites op mr T).
          conv_site_index op mr T t' = conv_site_index op mr T ?t \<longrightarrow> val t' = val ?t"
  proof (intro ballI impI)
    fix t' assume t': "t' \<in> set (conv_sites op mr T)"
      and e: "conv_site_index op mr T t' = conv_site_index op mr T ?t"
    obtain g' n' t0' d' ky' kx' where t'_eq: "t' = (g', n', t0', d', ky', kx')"
      by (cases t') auto
    from t' have r: "g' < groups op" "n' < batch_size op" "t0' < T" "unat mr dvd unat t0'"
      "d' < mr" "ky' < kernel_height op" "kx' < kernel_width op"
      unfolding t'_eq by (simp_all add: set_conv_sites [OF tiles])
    from e have "conv2d_index op mr T g' n' t0' d' ky' kx' = conv2d_index op mr T g n t0 d ky kx"
      unfolding t'_eq by (simp add: conv_site_index_def)
    from conv2d_index_inj [OF tiles slots r s this] show "val t' = val ?t"
      unfolding t'_eq by simp
  qed
  with mem have "fold (\<lambda>t buf. buf (conv_site_index op mr T t := val t)) (conv_sites op mr T) buf
           (conv_site_index op mr T ?t) = val ?t"
    by (rule fold_upd_written)
  then show ?thesis by (simp add: conv_site_index_def)
qed

lemma conv_axis_test:
  fixes o_c s k dl p h :: size_t
  defines "I \<equiv> int (unat o_c) * int (unat s) + int (unat k) * int (unat dl) - int (unat p)"
  assumes sum: "unat o_c * unat s + unat k * unat dl < 2 ^ 64"
    and pad: "unat h + unat p \<le> 2 ^ 64"
  shows "(o_c * s + k * dl - p < h) = (0 \<le> I \<and> I < int (unat h))"
    and "0 \<le> I \<Longrightarrow> o_c * s + k * dl - p = of_int I"
proof -
  let ?S = "unat o_c * unat s + unat k * unat dl"
  have u1: "unat (o_c * s) = unat o_c * unat s" using sum by (intro unat_mult_nowrap refl) linarith
  have u2: "unat (k * dl) = unat k * unat dl" using sum by (intro unat_mult_nowrap refl) linarith
  have uS: "unat (o_c * s + k * dl) = ?S" using sum by (intro unat_add_nowrap u1 u2)
  have I_eq: "I = int ?S - int (unat p)" by (simp add: I_def)
  have p64: "unat p < 2 ^ 64" using unsigned_less [of p, where 'a = nat] by simp
  show "(o_c * s + k * dl - p < h) = (0 \<le> I \<and> I < int (unat h))"
  proof (cases "unat p \<le> ?S")
    case True
    then have "unat (o_c * s + k * dl - p) = ?S - unat p"
      by (simp add: unat_sub_if' uS)
    with True show ?thesis unfolding I_eq word_less_nat_alt by linarith
  next
    case False
    then have "unat (o_c * s + k * dl - p) = ?S + 2 ^ 64 - unat p"
      by (simp add: unat_sub_if' uS)
    with False pad p64 show ?thesis unfolding I_eq word_less_nat_alt by linarith
  qed
  show "o_c * s + k * dl - p = of_int I" if "0 \<le> I"
  proof -
    from that have le: "unat p \<le> ?S" unfolding I_eq by linarith
    then have "unat (o_c * s + k * dl - p) = ?S - unat p"
      by (simp add: unat_sub_if' uS)
    moreover have "I = int (?S - unat p)" using le unfolding I_eq by linarith
    moreover have "?S - unat p < 2 ^ 64" using sum by linarith
    then have "unat (of_nat (?S - unat p) :: size_t) = ?S - unat p"
      by (simp add: unat_of_nat)
    ultimately show ?thesis by (intro word_eq_unatI) simp
  qed
qed

text \<open>
  Claim C1.  For the direct convolution planner the call returns, and the entry at index
  \<open>(g * N + n) * T * kH * kW + t0 * kH * kW + (ky * kW + kx) * MR + \<Delta>\<close> is
  \<open>input + n * H * W * input_pixel_stride + (iy * W + ix) * input_pixel_stride + g * IC\<close> when
  \<open>0 \<le> iy < H\<close> and \<open>0 \<le> ix < W\<close>, and the zero pointer otherwise, where
  \<open>(oy, ox)\<close> is quotient and remainder by \<open>W'\<close> of \<open>min (t0 + \<Delta>) (H' * W' - 1)\<close>,
  \<open>iy = oy * sH + ky * dH - pT\<close> and \<open>ix = ox * sW + kx * dW - pL\<close> as integers.
  The operator's preconditions are explicit: \<open>T\<close> is a multiple of \<open>MR\<close>, the
  \<open>G * N * T * kH * kW\<close> slots can be indexed by a \<open>size_t\<close>, and the coordinate
  arithmetic of the site does not exceed the range of \<open>size_t\<close>.
\<close>

theorem conv2d_entry:
  fixes op :: qnnp_operator and mr T g n t0 d ky kx :: size_t
  defines "o_c \<equiv> min (t0 + d) (output_height op * output_width op - 1)"
  defines "oy \<equiv> o_c div output_width op" and "ox \<equiv> o_c mod output_width op"
  defines "iy \<equiv> int (unat oy) * int (unat (stride_height op))
                   + int (unat ky) * int (unat (dilation_height op))
                   - int (unat (input_padding_top op))"
  defines "ix \<equiv> int (unat ox) * int (unat (stride_width op))
                   + int (unat kx) * int (unat (dilation_width op))
                   - int (unat (input_padding_left op))"
  assumes tiles: "0 < unat mr" "unat mr dvd unat T"
    and slots: "unat (groups op) * unat (batch_size op) * unat T
                  * (unat (kernel_height op) * unat (kernel_width op)) < 2 ^ 64"
    and width: "output_width op \<noteq> 0"
    and site: "g < groups op" "n < batch_size op" "t0 < T" "unat mr dvd unat t0" "d < mr"
      "ky < kernel_height op" "kx < kernel_width op"
    and rows: "unat oy * unat (stride_height op) + unat ky * unat (dilation_height op) < 2 ^ 64"
      "unat (input_height op) + unat (input_padding_top op) \<le> 2 ^ 64"
    and cols: "unat ox * unat (stride_width op) + unat kx * unat (dilation_width op) < 2 ^ 64"
      "unat (input_width op) + unat (input_padding_left op) \<le> 2 ^ 64"
  shows "\<exists>buf. qnnp_indirection_init_conv2d op mr T = Some buf
           \<and> buf ((g * batch_size op + n) * T * kernel_height op * kernel_width op
                    + t0 * kernel_height op * kernel_width op
                    + (ky * kernel_width op + kx) * mr + d)
               = (if 0 \<le> iy \<and> iy < int (unat (input_height op))
                     \<and> 0 \<le> ix \<and> ix < int (unat (input_width op))
                  then input op + n * input_height op * input_width op * input_pixel_stride op
                         + (of_int iy * input_width op + of_int ix) * input_pixel_stride op
                         + g * group_input_channels op
                  else zero_pointer op)"
proof -
  let ?buf = "fold (\<lambda>t buf. buf (conv_site_index op mr T t := conv2d_site_value op t))
                (conv_sites op mr T) (indirection_buffer op)"
  have run: "qnnp_indirection_init_conv2d op mr T = Some ?buf"
    using width tiles by (rule conv2d_flat)
  have entry: "?buf (conv2d_index op mr T g n t0 d ky kx) = conv2d_value op g n t0 d ky kx"
    using conv_plan_entry [OF tiles slots site, where val = "conv2d_site_value op"]
    by (simp add: conv2d_site_value_def)
  have idx: "(g * batch_size op + n) * T * kernel_height op * kernel_width op
                    + t0 * kernel_height op * kernel_width op
                    + (ky * kernel_width op + kx) * mr + d = conv2d_index op mr T g n t0 d ky kx"
    by (simp add: conv2d_index_def Let_def algebra_simps)
  let ?wy = "oy * stride_height op + ky * dilation_height op - input_padding_top op"
  let ?wx = "ox * stride_width op + kx * dilation_width op - input_padding_left op"
  let ?in = "0 \<le> iy \<and> iy < int (unat (input_height op))
               \<and> 0 \<le> ix \<and> ix < int (unat (input_width op))"
  note ty = conv_axis_test [OF rows, folded iy_def]
  note tx = conv_axis_test [OF cols, folded ix_def]
  have test: "(?wy < input_height op \<and> ?wx < input_width op) = ?in"
    unfolding ty(1) tx(1) by blast
  have unfolded: "conv2d_value op g n t0 d ky kx
      = (if ?wy < input_height op \<and> ?wx < input_width op
         then input op + n * input_height op * input_width op * input_pixel_stride op
                + (?wy * input_width op + ?wx) * input_pixel_stride op
                + g * group_input_channels op
         else zero_pointer op)"
    unfolding conv2d_value_def Let_def o_c_def oy_def ox_def by (rule refl)
  have val: "conv2d_value op g n t0 d ky kx
               = (if ?in
                  then input op + n * input_height op * input_width op * input_pixel_stride op
                         + (of_int iy * input_width op + of_int ix) * input_pixel_stride op
                         + g * group_input_channels op
                  else zero_pointer op)"
  proof (cases ?in)
    case True
    then have "?wy = of_int iy" "?wx = of_int ix" using ty(2) tx(2) by blast+
    then show ?thesis unfolding unfolded test by (simp only:)
  next
    case False
    then show ?thesis unfolding unfolded test by (simp only: if_False)
  qed
  show ?thesis
    unfolding idx
  proof (intro exI conjI)
    show "qnnp_indirection_init_conv2d op mr T = Some ?buf" by (rule run)
    show "?buf (conv2d_index op mr T g n t0 d ky kx) = (if ?in
                  then input op + n * input_height op * input_width op * input_pixel_stride op
                         + (of_int iy * input_width op + of_int ix) * input_pixel_stride op
                         + g * group_input_channels op
                  else zero_pointer op)"
      using entry val by (rule trans)
  qed
qed

text \<open>
  Claim C1 at a concrete plan: 3 by 3 kernel on a 4 by 4 input with padding 1, tiles of 8.
  Tile position \<open>8 + 1\<close> is output pixel \<open>(2, 1)\<close>; kernel position \<open>(0, 2)\<close> reads input
  pixel \<open>(1, 2)\<close>, six pixels after the input base.
\<close>

theorem conv2d_entry_witness:
  "\<exists>buf. qnnp_indirection_init_conv2d conv_example 8 16 = Some buf \<and> buf 89 = 4102"
proof -
  have h: "0 < unat (8::size_t)" "unat (8::size_t) dvd unat (16::size_t)"
    "unat (groups conv_example) * unat (batch_size conv_example) * unat (16::size_t)
       * (unat (kernel_height conv_example) * unat (kernel_width conv_example)) < 2 ^ 64"
    "output_width conv_example \<noteq> 0"
    "0 < groups conv_example" "0 < batch_size conv_example" "(8::size_t) < 16"
    "unat (8::size_t) dvd unat (8::size_t)" "(1::size_t) < 8"
    "0 < kernel_height conv_example" "2 < kernel_width conv_example"
    "unat (min (8 + 1) (output_height conv_example * output_width conv_example - 1)
            div output_width conv_example) * unat (stride_height conv_example)
       + unat (0::size_t) * unat (dilation_height conv_example) < 2 ^ 64"
    "unat (input_height conv_example) + unat (input_padding_top conv_example) \<le> 2 ^ 64"
    "unat (min (8 + 1) (output_height conv_example * output_width conv_example - 1)
            mod output_width conv_example) * unat (stride_width conv_example)
       + unat (2::size_t) * unat (dilation_width conv_example) < 2 ^ 64"
    "unat (input_width conv_example) + unat (input_padding_left conv_example) \<le> 2 ^ 64"
    by (simp_all add: conv_example_def)
  from conv2d_entry [OF h] show ?thesis by (simp add: conv_example_def)
qed

text \<open>
  Claim C7.  When the tiled size exceeds the output size, every entry written for a padded
  tile position \<open>t0 + \<Delta> \<ge> H' * W'\<close> equals the entry of the last real output pixel
  \<open>H' * W' - 1\<close> (tile start \<open>(H' * W' - 1) div MR * MR\<close>, offset
  \<open>(H' * W' - 1) mod MR\<close>) at the same group, image and kernel position.
\<close>

theorem conv2d_tile_padding:
  fixes op :: qnnp_operator and mr T g n t0 d ky kx :: size_t
  defines "q_last \<equiv> output_height op * output_width op - 1"
  assumes tiles: "0 < unat mr" "unat mr dvd unat T"
    and slots: "unat (groups op) * unat (batch_size op) * unat T
                  * (unat (kernel_height op) * unat (kernel_width op)) < 2 ^ 64"
    and out: "0 < unat (output_height op) * unat (output_width op)"
      "unat (output_height op) * unat (output_width op) < 2 ^ 64"
    and site: "g < groups op" "n < batch_size op" "t0 < T" "unat mr dvd unat t0" "d < mr"
      "ky < kernel_height op" "kx < kernel_width op"
    and padded: "unat (output_height op) * unat (output_width op) \<le> unat t0 + unat d"
  shows "\<exists>buf. qnnp_indirection_init_conv2d op mr T = Some buf
           \<and> buf (conv2d_index op mr T g n t0 d ky kx)
               = buf (conv2d_index op mr T g n (q_last div mr * mr) (q_last mod mr) ky kx)"
proof -
  let ?buf = "fold (\<lambda>t buf. buf (conv_site_index op mr T t := conv2d_site_value op t))
                (conv_sites op mr T) (indirection_buffer op)"
  let ?HW = "unat (output_height op) * unat (output_width op)"
  let ?M = "unat mr"
  have W0: "output_width op \<noteq> 0"
  proof
    assume "output_width op = 0"
    then have "?HW = 0" by simp
    with out(1) show False by simp
  qed
  have run: "qnnp_indirection_init_conv2d op mr T = Some ?buf"
    using W0 tiles by (rule conv2d_flat)
  have uHW: "unat (output_height op * output_width op) = ?HW"
    using out(2) by (intro unat_mult_nowrap refl)
  have "output_height op * output_width op \<noteq> 0"
  proof
    assume "output_height op * output_width op = 0"
    then have "unat (output_height op * output_width op) = 0" by simp
    with uHW out(1) show False by simp
  qed
  then have ulast: "unat q_last = ?HW - 1" unfolding q_last_def by (simp add: unat_minus_one uHW)
  obtain J where T_eq: "unat T = J * ?M" using tiles(2) by (auto simp: dvd_def mult.commute)
  obtain j where t0_eq: "unat t0 = j * ?M" using site(4) by (auto simp: dvd_def mult.commute)
  from site have lt: "unat t0 < unat T" "unat d < ?M" by (simp_all add: word_less_nat_alt)
  have "j * ?M < J * ?M" using lt(1) T_eq t0_eq by simp
  then have "j < J" by simp
  then have "j * ?M + unat d < J * ?M" using lt(2) by (rule digit_less)
  then have sumT: "unat t0 + unat d < unat T" using T_eq t0_eq by simp
  have T64: "unat T < 2 ^ 64" using unsigned_less [of T, where 'a = nat] by simp
  have usum: "unat (t0 + d) = unat t0 + unat d"
    using sumT T64 by (intro unat_add_nowrap refl) linarith
  have lastT: "unat q_last < unat T" using ulast padded sumT out(1) by linarith
  have "unat q_last \<le> unat (t0 + d)" using ulast padded usum out(1) by linarith
  then have "q_last \<le> t0 + d" by (simp add: word_le_nat_alt)
  then have clamp: "min (t0 + d) q_last = q_last" by (rule min_absorb2)
  let ?t0' = "q_last div mr * mr" and ?d' = "q_last mod mr"
  have M0: "mr \<noteq> 0" using tiles(1) by auto
  have split: "?t0' + ?d' = q_last" by (rule div_mult_mod_eq)
  have ud': "unat ?d' = unat q_last mod ?M" by (simp add: unat_mod)
  have uq: "unat (q_last div mr) = unat q_last div ?M" by (simp add: unat_div)
  have qle: "unat q_last div ?M * ?M \<le> unat q_last" by simp
  then have ut0': "unat ?t0' = unat q_last div ?M * ?M"
    using lastT T64 by (intro unat_mult_nowrap uq refl) linarith
  have site': "?t0' < T" "?M dvd unat ?t0'" "?d' < mr"
  proof -
    have "unat ?t0' < unat T" using qle lastT unfolding ut0' by linarith
    then show "?t0' < T" by (simp only: word_less_nat_alt)
    show "?M dvd unat ?t0'" unfolding ut0' by simp
    show "?d' < mr" using tiles(1) by (simp add: word_less_nat_alt ud')
  qed
  have clamp': "min (?t0' + ?d') q_last = q_last" unfolding split by simp
  have e1: "?buf (conv2d_index op mr T g n t0 d ky kx) = conv2d_value op g n t0 d ky kx"
    using conv_plan_entry [OF tiles slots site, where val = "conv2d_site_value op"]
    by (simp add: conv2d_site_value_def)
  have e2: "?buf (conv2d_index op mr T g n ?t0' ?d' ky kx) = conv2d_value op g n ?t0' ?d' ky kx"
    using conv_plan_entry [OF tiles slots site(1,2) site' site(6,7),
        where val = "conv2d_site_value op"]
    by (simp add: conv2d_site_value_def)
  have "conv2d_value op g n t0 d ky kx = conv2d_value op g n ?t0' ?d' ky kx"
    unfolding conv2d_value_def q_last_def [symmetric] clamp clamp' by (rule refl)
  with e1 e2 have "?buf (conv2d_index op mr T g n t0 d ky kx)
               = ?buf (conv2d_index op mr T g n ?t0' ?d' ky kx)" by simp
  with run show ?thesis by blast
qed

text \<open>
  Claim C7 at a concrete plan: 9 output pixels in tiles of 8, so \<open>T = 16\<close>.  The padded
  position \<open>8 + 5\<close> and the last real pixel \<open>8 + 0\<close> hold the same entry.
\<close>

theorem conv2d_tile_padding_witness:
  "\<exists>buf. qnnp_indirection_init_conv2d conv_tail_example 8 16 = Some buf \<and> buf 109 = buf 104"
proof -
  have h: "0 < unat (8::size_t)" "unat (8::size_t) dvd unat (16::size_t)"
    "unat (groups conv_tail_example) * unat (batch_size conv_tail_example) * unat (16::size_t)
       * (unat (kernel_height conv_tail_example) * unat (kernel_width conv_tail_example)) < 2 ^ 64"
    "0 < unat (output_height conv_tail_example) * unat (output_width conv_tail_example)"
    "unat (output_height conv_tail_example) * unat (output_width conv_tail_example) < 2 ^ 64"
    "0 < groups conv_tail_example" "0 < batch_size conv_tail_example" "(8::size_t) < 16"
    "unat (8::size_t) dvd unat (8::size_t)" "(5::size_t) < 8"
    "1 < kernel_height conv_tail_example" "1 < kernel_width conv_tail_example"
    "unat (output_height conv_tail_example) * unat (output_width conv_tail_example)
       \<le> unat (8::size_t) + unat (5::size_t)"
    by (simp_all add: conv_tail_example_def)
  from conv2d_tile_padding [OF h] show ?thesis
    by (simp add: conv_tail_example_def conv2d_index_def)
qed

lemma deconv_axis_test:
  fixes o_c p k dl s h :: size_t
  defines "Y \<equiv> int (unat o_c) + int (unat p) - int (unat k) * int (unat dl)"
  assumes a: "unat o_c + unat p < 2 ^ 64"
    and b: "unat k * unat dl < 2 ^ 64"
    and c: "unat h * unat s + unat k * unat dl \<le> 2 ^ 64"
    and s0: "s \<noteq> 0"
  shows "((o_c + p - k * dl) div s * s = o_c + p - k * dl \<and> (o_c + p - k * dl) div s < h)
           = (0 \<le> Y \<and> Y mod int (unat s) = 0 \<and> Y div int (unat s) < int (unat h))"
    and "0 \<le> Y \<Longrightarrow> (o_c + p - k * dl) div s = of_int (Y div int (unat s))"
proof -
  let ?A = "unat o_c + unat p" and ?B = "unat k * unat dl" and ?S = "unat s"
  let ?y = "o_c + p - k * dl"
  have uA: "unat (o_c + p) = ?A" using a by (intro unat_add_nowrap refl)
  have uB: "unat (k * dl) = ?B" using b by (intro unat_mult_nowrap refl)
  have S0: "0 < ?S" using s0 by (simp add: unat_gt_0)
  have Y_eq: "Y = int ?A - int ?B" by (simp add: Y_def)
  have uq: "unat (?y div s) = unat ?y div ?S" by (simp add: unat_div)
  have y64: "unat ?y < 2 ^ 64" using unsigned_less [of ?y, where 'a = nat] by simp
  have qle: "unat ?y div ?S * ?S \<le> unat ?y" by simp
  have uqs: "unat (?y div s * s) = unat ?y div ?S * ?S"
    using qle y64 by (intro unat_mult_nowrap uq refl) linarith
  have exact: "(?y div s * s = ?y) = (unat ?y mod ?S = 0)"
  proof -
    have "(?y div s * s = ?y) = (unat (?y div s * s) = unat ?y)" by (simp add: word_unat_eq_iff)
    also have "\<dots> = (unat ?y div ?S * ?S = unat ?y)" unfolding uqs ..
    also have "\<dots> = (unat ?y mod ?S = 0)"
      using div_mult_mod_eq [of "unat ?y" ?S] by arith
    finally show ?thesis .
  qed
  have range: "(?y div s < h) = (unat ?y div ?S < unat h)"
    unfolding word_less_nat_alt uq ..
  show "(?y div s * s = ?y \<and> ?y div s < h)
           = (0 \<le> Y \<and> Y mod int ?S = 0 \<and> Y div int ?S < int (unat h))"
  proof (cases "?B \<le> ?A")
    case True
    then have uy: "unat ?y = ?A - ?B" by (simp add: unat_sub_if' uA uB)
    have Yn: "Y = int (?A - ?B)" using True unfolding Y_eq by linarith
    have f1: "(Y mod int ?S = 0) = ((?A - ?B) mod ?S = 0)"
      unfolding Yn by (simp only: zmod_int [symmetric] of_nat_eq_0_iff)
    have f2: "(Y div int ?S < int (unat h)) = ((?A - ?B) div ?S < unat h)"
      unfolding Yn by (simp only: zdiv_int [symmetric] of_nat_less_iff)
    have f0: "(0 \<le> Y) = True" unfolding Yn by simp
    show ?thesis unfolding exact range uy f1 f2 f0 by (simp only: simp_thms)
  next
    case False
    then have uy: "unat ?y = ?A + 2 ^ 64 - ?B" by (simp add: unat_sub_if' uA uB)
    have neg: "\<not> 0 \<le> Y" using False unfolding Y_eq by linarith
    have "unat h * ?S \<le> unat ?y" using c False unfolding uy by linarith
    then have "\<not> unat ?y < unat h * ?S" by simp
    then have "\<not> unat ?y div ?S < unat h" using S0 by (simp add: div_less_iff_less_mult)
    with neg show ?thesis unfolding range by simp
  qed
  show "?y div s = of_int (Y div int ?S)" if "0 \<le> Y"
  proof -
    from that have le: "?B \<le> ?A" unfolding Y_eq by linarith
    then have uy: "unat ?y = ?A - ?B" by (simp add: unat_sub_if' uA uB)
    have Yn: "Y = int (?A - ?B)" using le unfolding Y_eq by linarith
    have "Y div int ?S = int (unat ?y div ?S)" unfolding Yn uy by (simp only: zdiv_int)
    then have "of_int (Y div int ?S) = (of_nat (unat ?y div ?S) :: size_t)"
      by (simp only: of_int_of_nat_eq)
    also have "\<dots> = of_nat (unat (?y div s))" unfolding uq ..
    also have "\<dots> = ?y div s" by simp
    finally show ?thesis by simp
  qed
qed

lemma conj_regroup:
  "(a \<and> b) = (y1 \<and> y2 \<and> y3) \<Longrightarrow> (c \<and> d) = q \<Longrightarrow> (a \<and> b \<and> c \<and> d) = (y1 \<and> y2 \<and> y3 \<and> q)"
  by blast

text \<open>
  Claim C5, as amended.  For the transposed-convolution planner the call returns, and the
  entry is the input pointer of pixel \<open>(Y div sH, X div sW)\<close> exactly when
  \<open>Y = oy + pT - ky * dH\<close> and \<open>X = ox + pL - kx * dW\<close> (as integers) are non-negative,
  divisible by the strides, and the quotients lie inside the input; it is the zero pointer
  otherwise, in particular for a logically negative coordinate.  This needs non-zero strides
  and the bounds \<open>H * sH + ky * dH \<le> 2^64\<close> and \<open>W * sW + kx * dW \<le> 2^64\<close> (with
  \<open>oy + pT\<close>, \<open>ox + pL\<close> and the products in range): they make a wrapped coordinate
  fail the range test.
\<close>

theorem deconv2d_entry:
  fixes op :: qnnp_operator and mr T g n t0 d ky kx :: size_t
  defines "o_c \<equiv> min (t0 + d) (output_height op * output_width op - 1)"
  defines "oy \<equiv> o_c div output_width op" and "ox \<equiv> o_c mod output_width op"
  defines "Y \<equiv> int (unat oy) + int (unat (input_padding_top op))
                  - int (unat ky) * int (unat (dilation_height op))"
  defines "X \<equiv> int (unat ox) + int (unat (input_padding_left op))
                  - int (unat kx) * int (unat (dilation_width op))"
  assumes tiles: "0 < unat mr" "unat mr dvd unat T"
    and slots: "unat (groups op) * unat (batch_size op) * unat T
                  * (unat (kernel_height op) * unat (kernel_width op)) < 2 ^ 64"
    and nonzero: "output_width op \<noteq> 0" "stride_height op \<noteq> 0" "stride_width op \<noteq> 0"
    and site: "g < groups op" "n < batch_size op" "t0 < T" "unat mr dvd unat t0" "d < mr"
      "ky < kernel_height op" "kx < kernel_width op"
    and rows: "unat oy + unat (input_padding_top op) < 2 ^ 64"
      "unat ky * unat (dilation_height op) < 2 ^ 64"
      "unat (input_height op) * unat (stride_height op)
         + unat ky * unat (dilation_height op) \<le> 2 ^ 64"
    and cols: "unat ox + unat (input_padding_left op) < 2 ^ 64"
      "unat kx * unat (dilation_width op) < 2 ^ 64"
      "unat (input_width op) * unat (stride_width op)
         + unat kx * unat (dilation_width op) \<le> 2 ^ 64"
  shows "\<exists>buf. qnnp_indirection_init_deconv2d op mr T = Some buf
           \<and> buf ((g * batch_size op + n) * T * kernel_height op * kernel_width op
                    + t0 * kernel_height op * kernel_width op
                    + (ky * kernel_width op + kx) * mr + d)
               = (if 0 \<le> Y \<and> Y mod int (unat (stride_height op)) = 0
                     \<and> Y div int (unat (stride_height op)) < int (unat (input_height op))
                     \<and> 0 \<le> X \<and> X mod int (unat (stride_width op)) = 0
                     \<and> X div int (unat (stride_width op)) < int (unat (input_width op))
                  then input op
                         + ((n * input_height op + of_int (Y div int (unat (stride_height op))))
                              * input_width op
                            + of_int (X div int (unat (stride_width op))))
                           * input_pixel_stride op
                         + g * group_input_channels op
                  else zero_pointer op)"
proof -
  let ?buf = "fold (\<lambda>t buf. buf (conv_site_index op mr T t := deconv2d_site_value op t))
                (conv_sites op mr T) (indirection_buffer op)"
  have run: "qnnp_indirection_init_deconv2d op mr T = Some ?buf"
    using nonzero tiles by (rule deconv2d_flat)
  have entry: "?buf (conv2d_index op mr T g n t0 d ky kx) = deconv2d_value op g n t0 d ky kx"
    using conv_plan_entry [OF tiles slots site, where val = "deconv2d_site_value op"]
    by (simp add: deconv2d_site_value_def)
  have idx: "(g * batch_size op + n) * T * kernel_height op * kernel_width op
                    + t0 * kernel_height op * kernel_width op
                    + (ky * kernel_width op + kx) * mr + d = conv2d_index op mr T g n t0 d ky kx"
    by (simp add: conv2d_index_def Let_def algebra_simps)
  let ?y = "oy + input_padding_top op - ky * dilation_height op"
  let ?x = "ox + input_padding_left op - kx * dilation_width op"
  let ?iy = "?y div stride_height op" and ?ix = "?x div stride_width op"
  let ?Ytest = "0 \<le> Y \<and> Y mod int (unat (stride_height op)) = 0
                     \<and> Y div int (unat (stride_height op)) < int (unat (input_height op))"
  let ?Xtest = "0 \<le> X \<and> X mod int (unat (stride_width op)) = 0
                     \<and> X div int (unat (stride_width op)) < int (unat (input_width op))"
  note ty = deconv_axis_test [OF rows nonzero(2), folded Y_def]
  note tx = deconv_axis_test [OF cols nonzero(3), folded X_def]
  let ?cond = "0 \<le> Y \<and> Y mod int (unat (stride_height op)) = 0
                     \<and> Y div int (unat (stride_height op)) < int (unat (input_height op))
                     \<and> 0 \<le> X \<and> X mod int (unat (stride_width op)) = 0
                     \<and> X div int (unat (stride_width op)) < int (unat (input_width op))"
  have test: "(?iy * stride_height op = ?y \<and> ?iy < input_height op
                 \<and> ?ix * stride_width op = ?x \<and> ?ix < input_width op) = ?cond"
    by (rule conj_regroup [OF ty(1) tx(1)])
  have unfolded: "deconv2d_value op g n t0 d ky kx
      = (if ?iy * stride_height op = ?y \<and> ?iy < input_height op
             \<and> ?ix * stride_width op = ?x \<and> ?ix < input_width op
         then input op + ((n * input_height op + ?iy) * input_width op + ?ix)
                          * input_pixel_stride op
                + g * group_input_channels op
         else zero_pointer op)"
    unfolding deconv2d_value_def Let_def o_c_def oy_def ox_def by (rule refl)
  have val: "deconv2d_value op g n t0 d ky kx
               = (if ?cond
                  then input op
                         + ((n * input_height op + of_int (Y div int (unat (stride_height op))))
                              * input_width op
                            + of_int (X div int (unat (stride_width op))))
                           * input_pixel_stride op
                         + g * group_input_channels op
                  else zero_pointer op)"
  proof (cases ?cond)
    case True
    then have "?iy = of_int (Y div int (unat (stride_height op)))"
      "?ix = of_int (X div int (unat (stride_width op)))" using ty(2) tx(2) by blast+
    then show ?thesis unfolding unfolded test by (simp only:)
  next
    case False
    then show ?thesis unfolding unfolded test by (simp only: if_False)
  qed
  show ?thesis
    unfolding idx
  proof (intro exI conjI)
    show "qnnp_indirection_init_deconv2d op mr T = Some ?buf" by (rule run)
    show "?buf (conv2d_index op mr T g n t0 d ky kx) = (if ?cond
                  then input op
                         + ((n * input_height op + of_int (Y div int (unat (stride_height op))))
                              * input_width op
                            + of_int (X div int (unat (stride_width op))))
                           * input_pixel_stride op
                         + g * group_input_channels op
                  else zero_pointer op)"
      using entry val by (rule trans)
  qed
qed

text \<open>
  Claim C5, as amended, at a concrete plan: 2 by 2 kernel with stride 2 on a 2 by 2 input,
  output 4 by 4.  Output pixel \<open>(2, 3)\<close> with kernel position \<open>(0, 1)\<close> reads input pixel
  \<open>(1, 1)\<close>.
\<close>

theorem deconv2d_entry_witness:
  "\<exists>buf. qnnp_indirection_init_deconv2d deconv_example 8 16 = Some buf \<and> buf 43 = 4099"
proof -
  have h: "0 < unat (8::size_t)" "unat (8::size_t) dvd unat (16::size_t)"
    "unat (groups deconv_example) * unat (batch_size deconv_example) * unat (16::size_t)
       * (unat (kernel_height deconv_example) * unat (kernel_width deconv_example)) < 2 ^ 64"
    "output_width deconv_example \<noteq> 0" "stride_height deconv_example \<noteq> 0"
    "stride_width deconv_example \<noteq> 0"
    "0 < groups deconv_example" "0 < batch_size deconv_example" "(8::size_t) < 16"
    "unat (8::size_t) dvd unat (8::size_t)" "(3::size_t) < 8"
    "0 < kernel_height deconv_example" "1 < kernel_width deconv_example"
    "unat (min (8 + 3) (output_height deconv_example * output_width deconv_example - 1)
            div output_width deconv_example) + unat (input_padding_top deconv_example) < 2 ^ 64"
    "unat (0::size_t) * unat (dilation_height deconv_example) < 2 ^ 64"
    "unat (input_height deconv_example) * unat (stride_height deconv_example)
       + unat (0::size_t) * unat (dilation_height deconv_example) \<le> 2 ^ 64"
    "unat (min (8 + 3) (output_height deconv_example * output_width deconv_example - 1)
            mod output_width deconv_example) + unat (input_padding_left deconv_example) < 2 ^ 64"
    "unat (1::size_t) * unat (dilation_width deconv_example) < 2 ^ 64"
    "unat (input_width deconv_example) * unat (stride_width deconv_example)
       + unat (1::size_t) * unat (dilation_width deconv_example) \<le> 2 ^ 64"
    by (simp_all add: deconv_example_def)
  from deconv2d_entry [OF h] show ?thesis by (simp add: deconv_example_def)
qed

text \<open>
  Claim C5 as stated fails on the full parameter domain.  With dilation \<open>2^64 - 4\<close>,
  stride 2 and input height 3, kernel row 1 of output row 0 has the logically negative
  coordinate \<open>0 + 0 - (2^64 - 4)\<close>, which wraps to 4: it is divisible by the stride and
  \<open>4 div 2 = 2 < 3\<close>, so the entry is the input pointer of row 2 and not the zero pointer.
\<close>

theorem deconv2d_wrapped_coordinate_counterexample:
  "qnnp_indirection_init_deconv2d deconv_wrap_example 1 1 \<noteq> None
   \<and> the (qnnp_indirection_init_deconv2d deconv_wrap_example 1 1)
         (conv2d_index deconv_wrap_example 1 1 0 0 0 0 1 0) = 4098
   \<and> zero_pointer deconv_wrap_example = 64
   \<and> unat (min (0 + 0) (output_height deconv_wrap_example * output_width deconv_wrap_example - 1)
              div output_width deconv_wrap_example)
        + unat (input_padding_top deconv_wrap_example)
      < unat (1::size_t) * unat (dilation_height deconv_wrap_example)"
proof -
  have nz: "output_width deconv_wrap_example \<noteq> 0" "stride_height deconv_wrap_example \<noteq> 0"
    "stride_width deconv_wrap_example \<noteq> 0"
    by (simp_all add: deconv_wrap_example_def)
  have tiles: "0 < unat (1::size_t)" "unat (1::size_t) dvd unat (1::size_t)" by simp_all
  have slots: "unat (groups deconv_wrap_example) * unat (batch_size deconv_wrap_example)
                 * unat (1::size_t)
                 * (unat (kernel_height deconv_wrap_example)
                      * unat (kernel_width deconv_wrap_example)) < 2 ^ 64"
    by (simp add: deconv_wrap_example_def)
  have site: "0 < groups deconv_wrap_example" "0 < batch_size deconv_wrap_example"
    "(0::size_t) < 1" "unat (1::size_t) dvd unat (0::size_t)" "(0::size_t) < 1"
    "1 < kernel_height deconv_wrap_example" "0 < kernel_width deconv_wrap_example"
    by (simp_all add: deconv_wrap_example_def)
  have "deconv2d_value deconv_wrap_example 0 0 0 0 1 0 = 4098"
    by (simp add: deconv2d_value_def deconv_wrap_example_def)
  with conv_plan_entry [OF tiles slots site, where val = "deconv2d_site_value deconv_wrap_example"]
  have "fold (\<lambda>t buf. buf (conv_site_index deconv_wrap_example 1 1 t
                             := deconv2d_site_value deconv_wrap_example t))
          (conv_sites deconv_wrap_example 1 1) (indirection_buffer deconv_wrap_example)
          (conv2d_index deconv_wrap_example 1 1 0 0 0 0 1 0) = 4098"
    by (simp add: deconv2d_site_value_def)
  then have "qnnp_indirection_init_deconv2d deconv_wrap_example 1 1 \<noteq> None
   \<and> the (qnnp_indirection_init_deconv2d deconv_wrap_example 1 1)
         (conv2d_index deconv_wrap_example 1 1 0 0 0 0 1 0) = 4098"
    unfolding deconv2d_flat [OF nz tiles] by simp
  moreover have "zero_pointer deconv_wrap_example = 64
   \<and> unat (min (0 + 0) (output_height deconv_wrap_example * output_width deconv_wrap_example - 1)
              div output_width deconv_wrap_example)
        + unat (input_padding_top deconv_wrap_example)
      < unat (1::size_t) * unat (dilation_height deconv_wrap_example)"
    by (simp add: deconv_wrap_example_def)
  ultimately show ?thesis by blast
qed

section \<open>The max-pool plan with shared slots\<close>






section \<open>Requantization against the reference formula\<close>

subsection \<open>Saturation and bounds\<close>

lemma sint_word_of_int_i32:
  "- (2 ^ 31) \<le> x \<Longrightarrow> x < 2 ^ 31 \<Longrightarrow> sint (word_of_int x :: i32) = x"
  by (simp add: sint_sbintrunc' signed_take_bit_int_eq_self)

lemma sint_word_of_int_i16:
  "- (2 ^ 15) \<le> x \<Longrightarrow> x < 2 ^ 15 \<Longrightarrow> sint (word_of_int x :: i16) = x"
  by (simp add: sint_sbintrunc' signed_take_bit_int_eq_self)

lemma uint_word_of_int_u8: "0 \<le> x \<Longrightarrow> x < 256 \<Longrightarrow> uint (word_of_int x :: u8) = x"
  by (simp add: uint_word_of_int)

lemma sint_sat_s32: "sint (sat_s32 x) = spec_sat (- (2 ^ 31)) (2 ^ 31 - 1) x"
  unfolding sat_s32_def spec_sat_def by (rule sint_word_of_int_i32) simp_all

lemma sint_sat_s16: "sint (sat_s16 x) = spec_sat (- (2 ^ 15)) (2 ^ 15 - 1) x"
  unfolding sat_s16_def spec_sat_def by (rule sint_word_of_int_i16) simp_all

lemma uint_sat_u8: "uint (sat_u8 x) = spec_sat 0 255 x"
  unfolding sat_u8_def spec_sat_def by (rule uint_word_of_int_u8) simp_all

lemma sint_i32_bounds: "- (2 ^ 31) \<le> sint (x :: i32)" "sint (x :: i32) < 2 ^ 31"
  using sint_ge [of x] sint_lt [of x] by simp_all

lemma sint_i16_bounds: "- (2 ^ 15) \<le> sint (x :: i16)" "sint (x :: i16) < 2 ^ 15"
  using sint_ge [of x] sint_lt [of x] by simp_all

lemma round_shift_negative:
  fixes x h :: int
  assumes "0 < h"
  shows "(x - 1 + h) div (2 * h) = - ((- x + h) div (2 * h))"
proof -
  let ?q = "(- x + h) div (2 * h)" and ?r = "(- x + h) mod (2 * h)"
  have e: "- x + h = 2 * h * ?q + ?r" by simp
  have r: "0 \<le> ?r" "?r < 2 * h" using assms by simp_all
  have "x - 1 + h = 2 * h * (- ?q) + (2 * h - 1 - ?r)" using e by (simp add: algebra_simps)
  moreover have "0 \<le> 2 * h - 1 - ?r" "2 * h - 1 - ?r < 2 * h" using r by linarith+
  ultimately show ?thesis by (rule int_div_pos_eq)
qed

lemma qrdmulh_lower:
  fixes a m :: int
  assumes a: "- (2 ^ 31) \<le> a" and m: "0 < m" "m < 2 ^ 31"
  shows "- (2 ^ 31) < (2 * a * m + 2 ^ 31) div 2 ^ 32"
proof -
  have "(- 2147483648) * m \<le> a * m" using a m(1) by (intro mult_right_mono) simp_all
  moreover have "m \<le> 2147483647" using m(2) by simp
  ultimately have "2 * a * m + 2 ^ 31 \<ge> (- (2 ^ 31) + 1) * (2 ^ 32 :: int)" by simp
  then have "(2 * a * m + 2 ^ 31) div 2 ^ 32 \<ge> ((- (2 ^ 31) + 1) * (2 ^ 32 :: int)) div 2 ^ 32"
    by (intro zdiv_mono1) simp_all
  then show ?thesis by simp
qed

subsection \<open>The rounding shift\<close>

lemma shift_count: "S \<le> 31 \<Longrightarrow> sint (ucast (- of_nat S :: i32) :: 8 word) = - int S"
proof -
  assume S: "S \<le> 31"
  have a: "(- of_nat S :: i32) = word_of_int (- int S)" by simp
  have d: "is_down (ucast :: i32 \<Rightarrow> 8 word)" by (simp add: is_down)
  have e8: "(ucast (- of_nat S :: i32) :: 8 word) = word_of_int (- int S)"
    unfolding a using d by (rule ucast_down_wi)
  have "sint (word_of_int (- int S) :: 8 word) = signed_take_bit (LENGTH(8) - 1) (- int S)"
    by (rule sint_sbintrunc')
  also have "\<dots> = - int S" using S by (intro signed_take_bit_int_eq_self) simp_all
  finally show ?thesis unfolding e8 .
qed

lemma shift_zero: "S \<le> 31 \<Longrightarrow> ((- of_nat S :: i32) = 0) = (S = 0)"
proof -
  assume S: "S \<le> 31"
  have "((- of_nat S :: i32) = 0) = ((of_nat S :: i32) = 0)" by simp
  also have "\<dots> = (2 ^ 32 dvd S)" by (simp add: word_of_nat_eq_0_iff)
  also have "\<dots> = (S = 0)"
  proof
    assume d: "(2::nat) ^ 32 dvd S"
    show "S = 0"
    proof (rule ccontr)
      assume "S \<noteq> 0"
      then have "0 < S" by simp
      with d have "(2::nat) ^ 32 \<le> S" by (rule dvd_imp_le)
      with S show False by simp
    qed
  qed simp
  finally show ?thesis .
qed

lemma sign_word: "signed_drop_bit 31 (q :: i32) = (if sint q < 0 then - 1 else 0)"
proof (rule signed_word_eqI [where 'a = int])
  have "sint (signed_drop_bit 31 q) = sint q div 2 ^ 31"
    by (simp add: sint_signed_drop_bit_eq drop_bit_eq_div)
  also have "\<dots> = (if sint q < 0 then - 1 else 0)"
  proof (cases "sint q < 0")
    case True
    have "sint q = 2 ^ 31 * (- 1) + (sint q + 2 ^ 31)" by simp
    moreover have "0 \<le> sint q + 2 ^ 31" using sint_i32_bounds(1) [of q] by linarith
    moreover have "sint q + 2 ^ 31 < 2 ^ 31" using True by linarith
    ultimately have "sint q div 2 ^ 31 = - 1" by (rule int_div_pos_eq)
    with True show ?thesis by simp
  next
    case False
    then have "sint q div 2 ^ 31 = 0" using sint_i32_bounds(2) [of q] by simp
    with False show ?thesis by simp
  qed
  finally show "sint (signed_drop_bit 31 q) = sint (if sint q < 0 then - 1 else 0 :: i32)"
    by simp
qed

lemma sint_add_nowrap:
  "- (2 ^ 31) \<le> sint a + sint b \<Longrightarrow> sint a + sint b < 2 ^ 31
     \<Longrightarrow> sint (a + b :: i32) = sint a + sint b"
  by (simp add: sint_word_add signed_take_bit_int_eq_self)

lemma rounding_shift:
  assumes q: "- (2 ^ 31) < sint (q :: i32)" and S: "S \<le> 31"
  shows "sint (vrshlq_s32 (vsraq_n_s32 q (vbicq_s32 q (vceqq_s32 (- of_nat S) 0)) 31) (- of_nat S))
           = spec_round_rshift (sint q) S"
proof (cases "S = 0")
  case True
  then show ?thesis
    by (simp add: vrshlq_s32_def vsraq_n_s32_def vbicq_s32_def vceqq_s32_def
        spec_round_rshift_def)
next
  case False
  then have S1: "0 < S" by simp
  let ?h = "2 ^ (S - 1) :: int"
  have pow: "(2 ^ S :: int) = 2 * ?h" using S1 by (cases S) simp_all
  have h0: "0 < ?h" by simp
  have hb: "?h \<le> 2 ^ 30" using S by (intro power_increasing) simp_all
  let ?adj = "vsraq_n_s32 q (vbicq_s32 q (vceqq_s32 (- of_nat S) 0)) 31"
  have mask: "vceqq_s32 (- of_nat S) 0 = 0"
    using False shift_zero [OF S] by (simp add: vceqq_s32_def)
  have adj: "sint ?adj = sint q + (if sint q < 0 then - 1 else 0)"
  proof -
    have "?adj = q + (if sint q < 0 then - 1 else 0)"
      by (simp add: vsraq_n_s32_def vbicq_s32_def mask sign_word)
    moreover have "sint (q + (if sint q < 0 then - 1 else 0 :: i32))
                     = sint q + sint (if sint q < 0 then - 1 else 0 :: i32)"
      using q sint_i32_bounds(2) [of q] by (intro sint_add_nowrap) (simp_all split: if_splits)
    ultimately show ?thesis by simp
  qed
  have count: "sint (ucast (- of_nat S :: i32) :: 8 word) = - int S" using S by (rule shift_count)
  let ?v = "(sint ?adj + ?h) div (2 * ?h)"
  have unfold: "vrshlq_s32 ?adj (- of_nat S) = word_of_int ?v"
    using S1 by (simp add: vrshlq_s32_def count Let_def pow)
  have lo: "- (2 ^ 31) \<le> ?v"
  proof -
    have "- (2 ^ 31) \<le> sint ?adj + ?h" using sint_i32_bounds(1) [of ?adj] h0 by linarith
    then have "(- (2 ^ 31)) div (2 * ?h) \<le> ?v" using h0 by (intro zdiv_mono1) simp_all
    moreover have "- (2 ^ 31) \<le> (- (2 ^ 31)) div (2 * ?h)"
    proof -
      have "(- (2 ^ 31 :: int)) div (2 * ?h) = - ((2 ^ 31) div (2 * ?h)) - (if (2 ^ 31) mod (2 * ?h) = 0 then 0 else 1)"
        using h0 by (simp add: zdiv_zminus1_eq_if)
      moreover have "(2 ^ 31 :: int) div (2 * ?h) \<le> 2 ^ 31 - 1"
      proof -
        have "(2 ^ 31 :: int) div (2 * ?h) \<le> 2 ^ 31 div 2" using h0 by (intro zdiv_mono2) simp_all
        then show ?thesis by simp
      qed
      ultimately show ?thesis by (simp split: if_splits)
    qed
    ultimately show ?thesis by linarith
  qed
  have hi: "?v < 2 ^ 31"
  proof -
    have "sint ?adj + ?h \<le> 2 ^ 31 + 2 ^ 30" using sint_i32_bounds(2) [of ?adj] hb by linarith
    then have "?v \<le> (2 ^ 31 + 2 ^ 30) div (2 * ?h)" using h0 by (intro zdiv_mono1) simp_all
    also have "\<dots> \<le> (2 ^ 31 + 2 ^ 30) div 2" using h0 by (intro zdiv_mono2) simp_all
    finally show ?thesis by simp
  qed
  have "sint (vrshlq_s32 ?adj (- of_nat S)) = ?v"
    unfolding unfold using lo hi by (rule sint_word_of_int_i32)
  also have "?v = spec_round_rshift (sint q) S"
  proof (cases "sint q < 0")
    case True
    then have "?v = (sint q - 1 + ?h) div (2 * ?h)" by (simp add: adj)
    also have "\<dots> = - ((- sint q + ?h) div (2 * ?h))" using h0 by (rule round_shift_negative)
    finally show ?thesis using True False by (simp add: spec_round_rshift_def pow)
  next
    case False
    with \<open>S \<noteq> 0\<close> show ?thesis by (simp add: adj spec_round_rshift_def pow)
  qed
  finally show ?thesis .
qed

subsection \<open>The whole pipeline\<close>

lemma uint_max_word: "uint (max a b) = max (uint a) (uint (b :: 'a::len word))"
  by (simp add: max_def word_le_def)

lemma uint_min_word: "uint (min a b) = min (uint a) (uint (b :: 'a::len word))"
  by (simp add: min_def word_le_def)

lemma requantize_narrowed:
  assumes m: "0 < sint (multiplier p)" and S: "S \<le> 31"
    and rs: "right_shift p = - of_nat S" and lohi: "output_min p \<le> output_max p"
  shows "uint (requantize p a)
           = spec_out_narrowed (sint a) (sint (multiplier p)) S (sint (output_zero_point p))
               (uint (output_min p)) (uint (output_max p))"
proof -
  let ?q = "vqrdmulhq_s32 a (multiplier p)"
  let ?r = "vrshlq_s32 (vsraq_n_s32 ?q (vbicq_s32 ?q (vceqq_s32 (- of_nat S) 0)) 31) (- of_nat S)"
  let ?h = "vqaddq_s16 (vqmovn_s32 ?r) (output_zero_point p)"
  let ?b = "vqmovun_s16 ?h"
  have q: "sint ?q = spec_sat_qrdmulh (sint a) (sint (multiplier p))"
    by (simp add: vqrdmulhq_s32_def sint_sat_s32 spec_sat_qrdmulh_def)
  have "- (2 ^ 31) < (2 * sint a * sint (multiplier p) + 2 ^ 31) div 2 ^ 32"
    using sint_i32_bounds(1) [of a] m sint_i32_bounds(2) [of "multiplier p"]
    by (rule qrdmulh_lower)
  then have qlo: "- (2 ^ 31) < sint ?q"
    unfolding q spec_sat_qrdmulh_def spec_sat_def by simp
  have r: "sint ?r = spec_round_rshift (sint ?q) S" using qlo S by (rule rounding_shift)
  have h: "sint ?h = spec_sat (- (2 ^ 15)) (2 ^ 15 - 1)
                       (spec_sat (- (2 ^ 15)) (2 ^ 15 - 1) (sint ?r) + sint (output_zero_point p))"
    by (simp add: vqaddq_s16_def vqmovn_s32_def sint_sat_s16)
  have b: "uint ?b = spec_sat 0 255 (sint ?h)" by (simp add: vqmovun_s16_def uint_sat_u8)
  have out: "requantize p a = min (max ?b (output_min p)) (output_max p)"
    by (simp add: requantize_def Let_def rs)
  have "uint (output_min p) \<le> uint (output_max p)" using lohi by (simp add: word_le_def)
  then have "uint (requantize p a) = spec_sat (uint (output_min p)) (uint (output_max p)) (uint ?b)"
    unfolding out uint_min_word uint_max_word spec_sat_def by linarith
  then show ?thesis unfolding spec_out_narrowed_def b h r q .
qed

lemma narrowing_harmless:
  assumes "- 32512 \<le> z" "z < 2 ^ 15"
  shows "spec_sat 0 255 (spec_sat (- (2 ^ 15)) (2 ^ 15 - 1) (spec_sat (- (2 ^ 15)) (2 ^ 15 - 1) r + z))
           = spec_sat 0 255 (spec_sat (- (2 ^ 15)) (2 ^ 15 - 1) (r + z))"
  using assms unfolding spec_sat_def by simp linarith

text \<open>
  Claim C2.  For every accumulator \<open>a\<close>, multiplier \<open>0 < M < 2 ^ 31\<close>, shift
  \<open>S \<le> 31\<close> (held negated in the \<open>right_shift\<close> field, as the count of \<open>vrshlq_s32\<close>), and
  \<open>output_min \<le> output_max\<close>, the byte the kernel produces is
  \<open>clamp (sat_u8 (sat_i16 (sat_i16 (round_rshift (sat_qrdmulh a M) S) + Z)))\<close>: the shifted
  value is narrowed to 16 bits before the zero point is added.  This is the reference formula
  \<open>clamp (sat_u8 (sat_i16 (round_rshift (sat_qrdmulh a M) S + Z)))\<close> whenever
  \<open>- 32512 \<le> Z\<close>.
\<close>

theorem requantize_reference:
  assumes "0 < sint (multiplier p)" and "S \<le> 31" and "right_shift p = - of_nat S"
    and "output_min p \<le> output_max p"
  shows "uint (requantize p a)
           = spec_out_narrowed (sint a) (sint (multiplier p)) S (sint (output_zero_point p))
               (uint (output_min p)) (uint (output_max p))
         \<and> (- 32512 \<le> sint (output_zero_point p) \<longrightarrow>
              uint (requantize p a)
                = spec_out (sint a) (sint (multiplier p)) S (sint (output_zero_point p))
                    (uint (output_min p)) (uint (output_max p)))"
proof -
  note n = requantize_narrowed [OF assms, of a]
  have "spec_out_narrowed (sint a) (sint (multiplier p)) S (sint (output_zero_point p))
               (uint (output_min p)) (uint (output_max p))
          = spec_out (sint a) (sint (multiplier p)) S (sint (output_zero_point p))
               (uint (output_min p)) (uint (output_max p))"
    if "- 32512 \<le> sint (output_zero_point p)"
    unfolding spec_out_narrowed_def spec_out_def
    using that sint_i16_bounds(2) [of "output_zero_point p"]
    by (simp only: narrowing_harmless)
  with n show ?thesis by simp
qed

lemma spec_evals:
  "spec_out 1073741824 2147483647 0 (- 32768) 0 255 = 255"
  "spec_out_narrowed 1073741824 2147483647 0 (- 32768) 0 255 = 0"
  "spec_out_narrowed 120 1073741824 30 0 0 255 = 0"
  "spec_out_narrowed 120 1073741824 0 0 0 255 = 60"
  by (simp_all add: spec_out_def spec_out_narrowed_def spec_sat_def spec_round_rshift_def
      spec_sat_qrdmulh_def)

text \<open>
  Claim C2 does not hold for every 16-bit zero point: with \<open>Z = - 32768\<close>,
  \<open>M = 2 ^ 31 - 1\<close>, \<open>S = 0\<close> and \<open>a = 2 ^ 30\<close> the product is \<open>1073741824\<close>, which the kernel
  narrows to \<open>32767\<close> before adding \<open>Z\<close>, so it stores 0, while the reference formula adds
  first and gives 255.
\<close>

theorem requantize_reference_counterexample:
  "uint (requantize extreme_zero_point_params 1073741824) = 0
   \<and> spec_out (sint (1073741824 :: i32)) (sint (multiplier extreme_zero_point_params)) 0
        (sint (output_zero_point extreme_zero_point_params))
        (uint (output_min extreme_zero_point_params))
        (uint (output_max extreme_zero_point_params)) = 255"
proof -
  have h: "0 < sint (multiplier extreme_zero_point_params)" "(0::nat) \<le> 31"
    "right_shift extreme_zero_point_params = - of_nat 0"
    "output_min extreme_zero_point_params \<le> output_max extreme_zero_point_params"
    by (simp_all add: extreme_zero_point_params_def)
  have v: "sint (1073741824 :: i32) = 1073741824"
    "sint (multiplier extreme_zero_point_params) = 2147483647"
    "sint (output_zero_point extreme_zero_point_params) = - 32768"
    "uint (output_min extreme_zero_point_params) = 0"
    "uint (output_max extreme_zero_point_params) = 255"
    by (simp_all add: extreme_zero_point_params_def)
  show ?thesis
    unfolding requantize_narrowed [OF h] v by (simp only: spec_evals simp_thms)
qed

text \<open>
  Claim C2 at a concrete input: accumulator 120, multiplier \<open>2 ^ 30\<close>, shift 30, zero
  point 0 and the full output range give the byte 0.
\<close>

theorem requantize_reference_witness:
  "uint (requantize scenario_params 120) = 0"
proof -
  have h: "0 < sint (multiplier scenario_params)" "(30::nat) \<le> 31"
    "right_shift scenario_params = - of_nat 30"
    "output_min scenario_params \<le> output_max scenario_params"
    by (simp_all add: scenario_params_def)
  have v: "sint (120 :: i32) = 120"
    "sint (multiplier scenario_params) = 1073741824"
    "sint (output_zero_point scenario_params) = 0"
    "uint (output_min scenario_params) = 0"
    "uint (output_max scenario_params) = 255"
    by (simp_all add: scenario_params_def)
  from requantize_reference [OF h, of 120] show ?thesis
    unfolding v by (simp only: spec_evals)
qed
section \<open>The store of the output block\<close>

lemma store_bytes_other:
  "(\<forall>j < length bs. q \<noteq> p + of_nat j) \<Longrightarrow> store_bytes mem p bs q = mem q"
proof (induction bs arbitrary: mem p)
  case Nil
  then show ?case by simp
next
  case (Cons b bs)
  have "\<forall>j < length bs. q \<noteq> (p + 1) + of_nat j"
  proof (intro allI impI)
    fix j assume "j < length bs"
    then have "q \<noteq> p + of_nat (Suc j)" using Cons.prems by auto
    then show "q \<noteq> (p + 1) + of_nat j" by (simp add: ac_simps)
  qed
  then have "store_bytes (mem (p := b)) (p + 1) bs q = (mem (p := b)) q" by (rule Cons.IH)
  moreover have "q \<noteq> p" using Cons.prems [rule_format, of 0] by simp
  ultimately show ?case by simp
qed

lemma store_bytes_written:
  "j < length bs \<Longrightarrow> length bs \<le> 2 ^ 64 \<Longrightarrow> store_bytes mem p bs (p + of_nat j) = bs ! j"
proof (induction bs arbitrary: mem p j)
  case Nil
  then show ?case by simp
next
  case (Cons b bs)
  show ?case
  proof (cases j)
    case 0
    have "\<forall>i < length bs. p \<noteq> (p + 1) + of_nat i"
    proof (intro allI impI)
      fix i assume i: "i < length bs"
      show "p \<noteq> (p + 1) + of_nat i"
      proof
        assume "p = (p + 1) + of_nat i"
        then have "(of_nat (Suc i) :: 64 word) = 0" by (simp add: add.assoc)
        then have "2 ^ LENGTH(64) dvd Suc i" by (rule word_of_nat_eq_0_iff [THEN iffD1])
        then have "(2 :: nat) ^ 64 dvd Suc i" by simp
        then have "(2 :: nat) ^ 64 \<le> Suc i" by (rule dvd_imp_le) simp
        with i Cons.prems(2) show False by simp
      qed
    qed
    then have "store_bytes (mem (p := b)) (p + 1) bs p = (mem (p := b)) p"
      by (rule store_bytes_other)
    with 0 show ?thesis by simp
  next
    case (Suc i)
    then have "i < length bs" "length bs \<le> 2 ^ 64" using Cons.prems by simp_all
    then have "store_bytes (mem (p := b)) (p + 1) bs ((p + 1) + of_nat i) = bs ! i"
      by (rule Cons.IH)
    with Suc show ?thesis by (simp add: ac_simps)
  qed
qed

lemma store_lanes_frame:
  assumes "\<And>p j. p \<in> set cs \<Longrightarrow> j < n \<Longrightarrow> q \<noteq> p + of_nat j" and "length cs = 8"
  shows "store_lanes n cs vout mem q = mem q"
proof -
  have step: "fold (\<lambda>i mem. store_bytes mem (cs ! i) (take n (drop (8 * (i mod 2)) (vout ! (i div 2)))))
          ns mem q = mem q" if "\<forall>i \<in> set ns. i < 8" for ns mem
    using that
  proof (induction ns arbitrary: mem)
    case Nil
    then show ?case by simp
  next
    case (Cons i ns)
    have "cs ! i \<in> set cs" using Cons.prems assms(2) by simp
    then have "\<forall>j < length (take n (drop (8 * (i mod 2)) (vout ! (i div 2)))). q \<noteq> cs ! i + of_nat j"
      using assms(1) by simp
    then have "store_bytes mem (cs ! i) (take n (drop (8 * (i mod 2)) (vout ! (i div 2)))) q = mem q"
      by (rule store_bytes_other)
    moreover have "\<forall>i \<in> set ns. i < 8" using Cons.prems by simp
    ultimately show ?case using Cons.IH by simp
  qed
  show ?thesis unfolding store_lanes_def by (rule step) simp
qed

lemma word_cases_1_8:
  assumes "1 \<le> (n :: size_t)" "n \<le> 8"
  shows "n \<in> {1, 2, 3, 4, 5, 6, 7, 8}"
proof -
  have "1 \<le> unat n" "unat n \<le> 8" using assms by (simp_all add: word_le_nat_alt)
  then have "unat n = 1 \<or> unat n = 2 \<or> unat n = 3 \<or> unat n = 4 \<or> unat n = 5 \<or> unat n = 6
      \<or> unat n = 7 \<or> unat n = 8" by arith
  moreover have "n = of_nat (unat n)" by simp
  ultimately show ?thesis
    by (elim disjE) (simp_all only: of_nat_numeral of_nat_1 insert_iff simp_thms)
qed

lemma store_block_frame:
  assumes nr: "1 \<le> nr" "nr \<le> 8"
    and h: "\<And>p j. p \<in> set (row_pointers mr c s) \<Longrightarrow> j < unat nr \<Longrightarrow> q \<noteq> p + of_nat j"
  shows "store_block mr nr c s vout mem q = mem q"
proof -
  let ?cs = "row_pointers mr c s"
  have len: "length ?cs = 8" by (simp add: row_pointers_def Let_def)
  have off: "store_lanes n (map (\<lambda>p. p + of_nat k) ?cs) v m q = m q" if "k + n \<le> unat nr" for k n v m
  proof (rule store_lanes_frame)
    fix p j assume "p \<in> set (map (\<lambda>p. p + of_nat k) ?cs)" "j < n"
    then obtain p' where p': "p' \<in> set ?cs" "p = p' + of_nat k" by auto
    have "q \<noteq> p' + of_nat (k + j)" using p'(1) \<open>j < n\<close> that by (intro h) simp_all
    then show "q \<noteq> p + of_nat j" by (simp add: p'(2) ac_simps)
  qed (simp add: len)
  have off0: "store_lanes n ?cs v m q = m q" if "n \<le> unat nr" for n v m
    using off [of 0 n v m] that by simp
  have off4: "store_lanes n (map (\<lambda>p. p + 4) ?cs) v m q = m q" if "4 + n \<le> unat nr" for n v m
    using off [of 4 n v m] that by simp
  have off2: "store_lanes n (map (\<lambda>p. p + 2) ?cs) v m q = m q" if "2 + n \<le> unat nr" for n v m
    using off [of 2 n v m] that by simp
  have off6: "store_lanes n (map ((\<lambda>p. p + 2) \<circ> (\<lambda>p. p + 4)) ?cs) v m q = m q"
    if "6 + n \<le> unat nr" for n v m
    using off [of 6 n v m] that by (simp add: comp_def ac_simps)
  from word_cases_1_8 [OF nr] show ?thesis
  proof (elim insertE emptyE)
    assume "nr = 8"
    then show ?thesis by (simp add: store_block_def Let_def word_le_nat_alt off0)
  next
    assume "nr = 1"
    then show ?thesis by (simp add: store_block_def Let_def word_le_nat_alt off0)
  next
    assume "nr = 2"
    then show ?thesis by (simp add: store_block_def Let_def word_le_nat_alt off0)
  next
    assume "nr = 3"
    then show ?thesis by (simp add: store_block_def Let_def word_le_nat_alt off0 off2)
  next
    assume "nr = 4"
    then show ?thesis by (simp add: store_block_def Let_def word_le_nat_alt off0)
  next
    assume "nr = 5"
    then show ?thesis by (simp add: store_block_def Let_def word_le_nat_alt off0 off4)
  next
    assume "nr = 6"
    then show ?thesis by (simp add: store_block_def Let_def word_le_nat_alt off0 off4)
  next
    assume "nr = 7"
    then show ?thesis by (simp add: store_block_def Let_def word_le_nat_alt off0 off4 off6)
  qed
qed

lemma row_pointers_rows:
  assumes "1 \<le> mr" "mr \<le> 8" "p \<in> set (row_pointers mr c s)"
  shows "\<exists>i < unat mr. p = c + of_nat i * s"
proof -
  have r: "\<exists>i < m. p = c + of_nat i * s" if "p = c + of_nat k * s" "k < m" for k m
    using that by blast
  from word_cases_1_8 [OF assms(1,2)] show ?thesis
  proof (elim insertE emptyE)
    assume "mr = 1"
    with assms(3) have "p = c + of_nat 0 * s"
      by (simp add: row_pointers_def Let_def word_le_nat_alt word_less_nat_alt)
    then show ?thesis using \<open>mr = 1\<close> by (intro r [of 0]) simp_all
  next
    assume "mr = 2"
    with assms(3) have "p = c + of_nat 0 * s \<or> p = c + of_nat 1 * s"
      by (auto simp add: row_pointers_def Let_def word_le_nat_alt word_less_nat_alt)
    then show ?thesis using \<open>mr = 2\<close> by (elim disjE) (rule r, assumption, simp)+
  next
    assume "mr = 3"
    with assms(3) have "p = c + of_nat 0 * s \<or> p = c + of_nat 1 * s \<or> p = c + of_nat 2 * s"
      by (auto simp add: row_pointers_def Let_def word_le_nat_alt word_less_nat_alt)
    then show ?thesis using \<open>mr = 3\<close> by (elim disjE) (rule r, assumption, simp)+
  next
    assume "mr = 4"
    with assms(3) have "p = c + of_nat 0 * s \<or> p = c + of_nat 1 * s \<or> p = c + of_nat 2 * s
        \<or> p = c + of_nat 3 * s"
      by (auto simp add: row_pointers_def Let_def word_le_nat_alt word_less_nat_alt)
    then show ?thesis using \<open>mr = 4\<close> by (elim disjE) (rule r, assumption, simp)+
  next
    assume "mr = 5"
    with assms(3) have "p = c + of_nat 0 * s \<or> p = c + of_nat 1 * s \<or> p = c + of_nat 2 * s
        \<or> p = c + of_nat 3 * s \<or> p = c + of_nat 4 * s"
      by (auto simp add: row_pointers_def Let_def word_le_nat_alt word_less_nat_alt)
    then show ?thesis using \<open>mr = 5\<close> by (elim disjE) (rule r, assumption, simp)+
  next
    assume "mr = 6"
    with assms(3) have "p = c + of_nat 0 * s \<or> p = c + of_nat 1 * s \<or> p = c + of_nat 2 * s
        \<or> p = c + of_nat 3 * s \<or> p = c + of_nat 4 * s \<or> p = c + of_nat 5 * s"
      by (auto simp add: row_pointers_def Let_def word_le_nat_alt word_less_nat_alt)
    then show ?thesis using \<open>mr = 6\<close> by (elim disjE) (rule r, assumption, simp)+
  next
    assume "mr = 7"
    with assms(3) have "p = c + of_nat 0 * s \<or> p = c + of_nat 1 * s \<or> p = c + of_nat 2 * s
        \<or> p = c + of_nat 3 * s \<or> p = c + of_nat 4 * s \<or> p = c + of_nat 5 * s
        \<or> p = c + of_nat 6 * s"
      by (auto simp add: row_pointers_def Let_def word_le_nat_alt word_less_nat_alt)
    then show ?thesis using \<open>mr = 7\<close> by (elim disjE) (rule r, assumption, simp)+
  next
    assume "mr = 8"
    with assms(3) have "p = c + of_nat 0 * s \<or> p = c + of_nat 1 * s \<or> p = c + of_nat 2 * s
        \<or> p = c + of_nat 3 * s \<or> p = c + of_nat 4 * s \<or> p = c + of_nat 5 * s
        \<or> p = c + of_nat 6 * s \<or> p = c + of_nat 7 * s"
      by (auto simp add: row_pointers_def Let_def word_le_nat_alt word_less_nat_alt)
    then show ?thesis using \<open>mr = 8\<close> by (elim disjE) (rule r, assumption, simp)+
  qed
qed

subsection \<open>A call that returns\<close>

lemma scenario_accumulate:
  "accumulate scenario_mem 0 8 1 scenario_a scenario_w = Some (replicate 8 (replicate 8 120), [], [])"
  by code_simp

lemma scenario_returns:
  "\<exists>mem'. q8conv_ukernel_8x8__neon mr nr 8 1 scenario_a scenario_w c c_stride scenario_params
            scenario_mem = Some mem'"
proof -
  have k: "kernel_zero_point scenario_params = 0" by (simp add: scenario_params_def)
  show ?thesis unfolding q8conv_ukernel_8x8__neon_def k scenario_accumulate by (simp add: Let_def)
qed

subsection \<open>The frame of the store\<close>

text \<open>
  Claim C9.  For \<open>mr\<close> and \<open>nr\<close> between 1 and 8, a byte whose address is not
  \<open>c + i * c_stride + j\<close> for some row \<open>i < mr\<close> and column \<open>j < nr\<close> holds after the call
  what it held before: the kernel writes inside the \<open>mr\<close> by \<open>nr\<close> rectangle only.
\<close>

theorem store_frame:
  assumes "1 \<le> mr" "mr \<le> 8" "1 \<le> nr" "nr \<le> 8"
    and "q8conv_ukernel_8x8__neon mr nr kc ks a w c c_stride quantization_params mem = Some mem'"
    and "\<forall>i < unat mr. \<forall>j < unat nr. q \<noteq> c + of_nat i * c_stride + of_nat j"
  shows "mem' q = mem q"
proof -
  have h: "q \<noteq> p + of_nat j" if "p \<in> set (row_pointers mr c c_stride)" "j < unat nr" for p j
  proof -
    from row_pointers_rows [OF assms(1,2) that(1)]
    obtain i where "i < unat mr" "p = c + of_nat i * c_stride" by blast
    with assms(6) that(2) show ?thesis by simp
  qed
  from assms(5) obtain vout where "mem' = store_block mr nr c c_stride vout mem"
    by (auto simp add: q8conv_ukernel_8x8__neon_def Let_def split: option.splits)
  then show ?thesis using store_block_frame [OF assms(3,4) h] by simp
qed

text \<open>
  Claim C9 for \<open>mr = 5\<close>, \<open>nr = 3\<close> and rows 8 bytes apart from address 8192: column 3 of
  row 0 (address 8195) and column 0 of row 5 (address 8232) keep their contents.
\<close>

theorem store_frame_witness:
  "\<exists>mem'. q8conv_ukernel_8x8__neon 5 3 8 1 scenario_a scenario_w 8192 8 scenario_params scenario_mem
            = Some mem'
          \<and> mem' 8195 = scenario_mem 8195 \<and> mem' 8232 = scenario_mem 8232"
proof -
  from scenario_returns obtain mem'
    where r: "q8conv_ukernel_8x8__neon 5 3 8 1 scenario_a scenario_w 8192 8 scenario_params
                scenario_mem = Some mem'"
    by blast
  have b: "(1::size_t) \<le> 5" "(5::size_t) \<le> 8" "(1::size_t) \<le> 3" "(3::size_t) \<le> 8"
    by (simp_all add: word_le_nat_alt)
  have "\<forall>i < unat (5::size_t). \<forall>j < unat (3::size_t). (8195::ptr) \<noteq> 8192 + of_nat i * 8 + of_nat j"
  proof (intro allI impI)
    fix i j assume "i < unat (5::size_t)" "j < unat (3::size_t)"
    then have "i = 0 \<or> i = 1 \<or> i = 2 \<or> i = 3 \<or> i = 4" "j = 0 \<or> j = 1 \<or> j = 2" by auto
    then show "(8195::ptr) \<noteq> 8192 + of_nat i * 8 + of_nat j" by (elim disjE) simp_all
  qed
  from store_frame [OF b r this] have c: "mem' 8195 = scenario_mem 8195" .
  have "\<forall>i < unat (5::size_t). \<forall>j < unat (3::size_t). (8232::ptr) \<noteq> 8192 + of_nat i * 8 + of_nat j"
  proof (intro allI impI)
    fix i j assume "i < unat (5::size_t)" "j < unat (3::size_t)"
    then have "i = 0 \<or> i = 1 \<or> i = 2 \<or> i = 3 \<or> i = 4" "j = 0 \<or> j = 1 \<or> j = 2" by auto
    then show "(8232::ptr) \<noteq> 8192 + of_nat i * 8 + of_nat j" by (elim disjE) simp_all
  qed
  from store_frame [OF b r this] have "mem' 8232 = scenario_mem 8232" .
  with r c show ?thesis by simp
qed
section \<open>The kernel on the one-pixel input\<close>

lemma store_lanes_last_row:
  assumes "j < n" "8 + n \<le> length (vout ! 3)" "n \<le> 8"
  shows "store_lanes n cs vout mem (cs ! 7 + of_nat j) = vout ! 3 ! (8 + j)"
proof -
  let ?f = "\<lambda>i mem. store_bytes mem (cs ! i) (take n (drop (8 * (i mod 2)) (vout ! (i div 2))))"
  let ?bs = "take n (drop 8 (vout ! 3))"
  have l: "length ?bs = n" using assms(2) by simp
  have "store_lanes n cs vout mem = ?f 7 (fold ?f [0, 1, 2, 3, 4, 5, 6] mem)"
    by (simp add: store_lanes_def)
  also have "\<dots> = store_bytes (fold ?f [0, 1, 2, 3, 4, 5, 6] mem) (cs ! 7) ?bs"
    by simp
  finally have "store_lanes n cs vout mem (cs ! 7 + of_nat j) = ?bs ! j"
    using assms(1,3) l by (simp add: store_bytes_written)
  also have "\<dots> = vout ! 3 ! (8 + j)" using assms(1,2) by simp
  finally show ?thesis .
qed

lemma scenario_requantize: "requantize scenario_params 120 = 0"
proof -
  have h: "0 < sint (multiplier scenario_params)" "(30::nat) \<le> 31"
    "right_shift scenario_params = - of_nat 30"
    "output_min scenario_params \<le> output_max scenario_params"
    by (simp_all add: scenario_params_def)
  have v: "sint (120 :: i32) = 120"
    "sint (multiplier scenario_params) = 1073741824"
    "sint (output_zero_point scenario_params) = 0"
    "uint (output_min scenario_params) = 0"
    "uint (output_max scenario_params) = 255"
    by (simp_all add: scenario_params_def)
  have "uint (requantize scenario_params 120) = 0"
    unfolding requantize_narrowed [OF h] v by (simp only: spec_evals)
  then have "uint (requantize scenario_params 120) = uint (0 :: u8)" by simp
  then show ?thesis by (simp only: word_uint_eq_iff)
qed

lemma narrow_zero: "vqmovun_s16 (vqaddq_s16 (vqmovn_s32 0) 0) = 0"
  by (simp add: vqmovn_s32_def vqaddq_s16_def vqmovun_s16_def sat_s16_def sat_u8_def)

lemma positive_count_requantize:
  "requantize (scenario_params\<lparr>right_shift := 30\<rparr>) 120 = 0"
proof -
  let ?p = "scenario_params\<lparr>right_shift := 30\<rparr>"
  have f: "multiplier ?p = 1073741824" "right_shift ?p = 30" "output_zero_point ?p = 0"
    "output_min ?p = 0" "output_max ?p = 255"
    by (simp_all add: scenario_params_def)
  have c: "sint (ucast (30 :: i32) :: 8 word) = 30" by simp
  have q: "vqrdmulhq_s32 120 1073741824 = 60" by (simp add: vqrdmulhq_s32_def sat_s32_def)
  have a: "vsraq_n_s32 60 (vbicq_s32 60 (vceqq_s32 30 0)) 31 = 60"
    by (simp add: vsraq_n_s32_def vbicq_s32_def vceqq_s32_def sign_word)
  have s: "vrshlq_s32 60 30 = 0" by (simp add: vrshlq_s32_def c)
  have "requantize ?p 120 = min (max (0 :: u8) 0) 255"
    unfolding requantize_def Let_def f q a s narrow_zero ..
  then show ?thesis by simp
qed

lemma kernel_single_row:
  assumes "accumulate mem (kernel_zero_point params) kc ks a w = Some (vacc, w', a')"
    and "length vacc = 8" "length (vacc ! 6) = 8" "length (vacc ! 7) = 8" "j < 8"
  shows "q8conv_ukernel_8x8__neon 1 8 kc ks a w c c_stride params mem \<noteq> None
           \<and> the (q8conv_ukernel_8x8__neon 1 8 kc ks a w c c_stride params mem) (c + of_nat j)
               = requantize params (vacc ! 7 ! j)"
proof -
  let ?rows = "map (map (requantize params)) vacc"
  let ?vout = "map (\<lambda>i. ?rows ! (2 * i) @ ?rows ! (2 * i + 1)) [0, 1, 2, 3]"
  let ?cs = "[c, c, c, c, c, c, c, c]"
  have k: "q8conv_ukernel_8x8__neon 1 8 kc ks a w c c_stride params mem
             = Some (store_block 1 8 c c_stride ?vout mem)"
    by (simp add: q8conv_ukernel_8x8__neon_def assms(1) Let_def)
  have cs: "row_pointers 1 c c_stride = ?cs"
    by (simp add: row_pointers_def Let_def word_le_nat_alt word_less_nat_alt)
  have sb: "store_block 1 8 c c_stride ?vout mem = store_lanes 8 ?cs ?vout mem"
    by (simp add: store_block_def cs)
  have v3: "?vout ! 3 = ?rows ! 6 @ ?rows ! 7" by simp
  have l: "length (?rows ! 6) = 8" "length (?rows ! 7) = 8" using assms(2-4) by simp_all
  have len: "8 + 8 \<le> length (?vout ! 3)" unfolding v3 using l by simp
  have "store_lanes 8 ?cs ?vout mem (?cs ! 7 + of_nat j) = ?vout ! 3 ! (8 + j)"
    using assms(5) len by (intro store_lanes_last_row) simp_all
  also have "\<dots> = ?rows ! 7 ! j" unfolding v3 using l by (simp add: nth_append)
  also have "\<dots> = requantize params (vacc ! 7 ! j)" using assms(2,4,5) by simp
  finally have "store_lanes 8 ?cs ?vout mem (c + of_nat j) = requantize params (vacc ! 7 ! j)"
    by simp
  then show ?thesis unfolding k sb by simp
qed

lemma zero_count_requantize: "requantize (scenario_params\<lparr>right_shift := 0\<rparr>) 120 = 60"
proof -
  let ?p = "scenario_params\<lparr>right_shift := 0\<rparr>"
  have h: "0 < sint (multiplier ?p)" "(0::nat) \<le> 31" "right_shift ?p = - of_nat 0"
    "output_min ?p \<le> output_max ?p"
    by (simp_all add: scenario_params_def)
  have v: "sint (120 :: i32) = 120" "sint (multiplier ?p) = 1073741824"
    "sint (output_zero_point ?p) = 0" "uint (output_min ?p) = 0" "uint (output_max ?p) = 255"
    by (simp_all add: scenario_params_def)
  have "uint (requantize ?p 120) = 60"
    unfolding requantize_narrowed [OF h] v by (simp only: spec_evals)
  then have "uint (requantize ?p 120) = uint (60 :: u8)" by simp
  then show ?thesis by (simp only: word_uint_eq_iff)
qed

lemma scenario_row:
  assumes "kernel_zero_point params = 0" "requantize params 120 = v"
  shows "q8conv_ukernel_8x8__neon 1 8 8 1 scenario_a scenario_w 8192 8 params scenario_mem \<noteq> None
         \<and> map (the (q8conv_ukernel_8x8__neon 1 8 8 1 scenario_a scenario_w 8192 8 params
                       scenario_mem))
             [8192, 8193, 8194, 8195, 8196, 8197, 8198, 8199] = [v, v, v, v, v, v, v, v]"
proof -
  let ?vacc = "replicate 8 (replicate 8 (120 :: i32))"
  let ?m = "q8conv_ukernel_8x8__neon 1 8 8 1 scenario_a scenario_w 8192 8 params scenario_mem"
  have acc: "accumulate scenario_mem (kernel_zero_point params) 8 1 scenario_a scenario_w
               = Some (?vacc, [], [])"
    unfolding assms(1) by (rule scenario_accumulate)
  have l: "length ?vacc = 8" "length (?vacc ! 6) = 8" "length (?vacc ! 7) = 8" by simp_all
  have r: "?m \<noteq> None \<and> the ?m (8192 + of_nat j) = v" if "j < 8" for j
    using kernel_single_row [OF acc l that, of 8192 8] that assms(2) by simp
  from r [of 0] r [of 1] r [of 2] r [of 3] r [of 4] r [of 5] r [of 6] r [of 7]
  show ?thesis by simp
qed

text \<open>
  Claim C3.  On the one-pixel input (activations 3, weights 5, zero bias, \<open>kc = 8\<close>,
  \<open>ks = 1\<close>, \<open>mr = 1\<close>, \<open>nr = 8\<close>) every accumulator is \<open>3 * 5 * 8 = 120\<close>.  With multiplier
  \<open>2 ^ 30\<close> and a right shift by 30 the eight stored bytes are 0: the multiplication gives
  60 and the rounding shift by 30 bits gives 0.  The bytes are 60 when the shift is 0.
\<close>

theorem scenario_output:
  "accumulate scenario_mem (kernel_zero_point scenario_params) 8 1 scenario_a scenario_w
     = Some (replicate 8 (replicate 8 120), [], [])
   \<and> (\<exists>mem'. q8conv_ukernel_8x8__neon 1 8 8 1 scenario_a scenario_w 8192 8 scenario_params
                 scenario_mem = Some mem'
          \<and> map mem' [8192, 8193, 8194, 8195, 8196, 8197, 8198, 8199] = [0, 0, 0, 0, 0, 0, 0, 0])
   \<and> (\<exists>mem'. q8conv_ukernel_8x8__neon 1 8 8 1 scenario_a scenario_w 8192 8
                 (scenario_params\<lparr>right_shift := 0\<rparr>) scenario_mem = Some mem'
          \<and> map mem' [8192, 8193, 8194, 8195, 8196, 8197, 8198, 8199]
              = [60, 60, 60, 60, 60, 60, 60, 60])"
proof -
  have k: "kernel_zero_point scenario_params = 0"
    "kernel_zero_point (scenario_params\<lparr>right_shift := 0\<rparr>) = 0"
    by (simp_all add: scenario_params_def)
  have "accumulate scenario_mem (kernel_zero_point scenario_params) 8 1 scenario_a scenario_w
     = Some (replicate 8 (replicate 8 120), [], [])"
    unfolding k by (rule scenario_accumulate)
  moreover from scenario_row [OF k(1) scenario_requantize]
  have "\<exists>mem'. q8conv_ukernel_8x8__neon 1 8 8 1 scenario_a scenario_w 8192 8 scenario_params
                 scenario_mem = Some mem'
          \<and> map mem' [8192, 8193, 8194, 8195, 8196, 8197, 8198, 8199] = [0, 0, 0, 0, 0, 0, 0, 0]"
    by (cases "q8conv_ukernel_8x8__neon 1 8 8 1 scenario_a scenario_w 8192 8 scenario_params
                 scenario_mem") simp_all
  moreover from scenario_row [OF k(2) zero_count_requantize]
  have "\<exists>mem'. q8conv_ukernel_8x8__neon 1 8 8 1 scenario_a scenario_w 8192 8
                 (scenario_params\<lparr>right_shift := 0\<rparr>) scenario_mem = Some mem'
          \<and> map mem' [8192, 8193, 8194, 8195, 8196, 8197, 8198, 8199]
              = [60, 60, 60, 60, 60, 60, 60, 60]"
    by (cases "q8conv_ukernel_8x8__neon 1 8 8 1 scenario_a scenario_w 8192 8
                 (scenario_params\<lparr>right_shift := 0\<rparr>) scenario_mem") simp_all
  ultimately show ?thesis by (intro conjI)
qed

text \<open>
  Claim C3 as stated fails: with a right shift by 30 the stored bytes are not eight times 60,
  whether the \<open>right_shift\<close> field holds the count of \<open>vrshlq_s32\<close> (\<open>- 30\<close>) or the
  number 30 itself, which that instruction takes as a shift to the left.
\<close>

theorem scenario_output_counterexample:
  "q8conv_ukernel_8x8__neon 1 8 8 1 scenario_a scenario_w 8192 8 scenario_params scenario_mem
     \<noteq> None
   \<and> map (the (q8conv_ukernel_8x8__neon 1 8 8 1 scenario_a scenario_w 8192 8 scenario_params
                 scenario_mem))
       [8192, 8193, 8194, 8195, 8196, 8197, 8198, 8199] \<noteq> [60, 60, 60, 60, 60, 60, 60, 60]
   \<and> q8conv_ukernel_8x8__neon 1 8 8 1 scenario_a scenario_w 8192 8
       (scenario_params\<lparr>right_shift := 30\<rparr>) scenario_mem \<noteq> None
   \<and> map (the (q8conv_ukernel_8x8__neon 1 8 8 1 scenario_a scenario_w 8192 8
                 (scenario_params\<lparr>right_shift := 30\<rparr>) scenario_mem))
       [8192, 8193, 8194, 8195, 8196, 8197, 8198, 8199] \<noteq> [60, 60, 60, 60, 60, 60, 60, 60]"
proof -
  have k: "kernel_zero_point scenario_params = 0"
    "kernel_zero_point (scenario_params\<lparr>right_shift := 30\<rparr>) = 0"
    by (simp_all add: scenario_params_def)
  from scenario_row [OF k(1) scenario_requantize] scenario_row [OF k(2) positive_count_requantize]
  show ?thesis by simp
qed
section \<open>The extent of the weight stream\<close>

lemma readsI:
  assumes "\<And>s w. length w < n \<Longrightarrow> f (s, w) = None"
    and "\<And>s w. n \<le> length w \<Longrightarrow> \<exists>s'. \<forall>x. f (s, w @ x) = Some (s', drop n w @ x)"
  shows "reads n f"
  unfolding reads_def using assms by blast

lemma reads_short: "reads n f \<Longrightarrow> length w < n \<Longrightarrow> f (s, w) = None"
  unfolding reads_def by blast

lemma reads_enough:
  "reads n f \<Longrightarrow> n \<le> length w \<Longrightarrow> \<exists>s'. \<forall>x. f (s, w @ x) = Some (s', drop n w @ x)"
  unfolding reads_def by blast

lemma reads_Some: "reads 0 Some"
  by (rule readsI) simp_all

lemma reads_bind:
  assumes f: "reads m f" and g: "reads n g"
  shows "reads (m + n) (\<lambda>st. Option.bind (f st) g)"
proof (rule readsI)
  fix s :: 'a and w :: "u8 list"
  assume short: "length w < m + n"
  show "Option.bind (f (s, w)) g = None"
  proof (cases "length w < m")
    case True
    with f have "f (s, w) = None" by (rule reads_short)
    then show ?thesis by simp
  next
    case False
    then have "m \<le> length w" by simp
    from reads_enough [OF f this, of s]
    obtain s' where "\<forall>x. f (s, w @ x) = Some (s', drop m w @ x)" ..
    from this [rule_format, of "[]"] have e: "f (s, w) = Some (s', drop m w)" by simp
    have "length (drop m w) < n" using short False by simp
    with g have "g (s', drop m w) = None" by (rule reads_short)
    with e show ?thesis by simp
  qed
next
  fix s :: 'a and w :: "u8 list"
  assume enough: "m + n \<le> length w"
  then have "m \<le> length w" by simp
  from reads_enough [OF f this, of s]
  obtain s1 where s1: "\<forall>x. f (s, w @ x) = Some (s1, drop m w @ x)" ..
  have "n \<le> length (drop m w)" using enough by simp
  from reads_enough [OF g this, of s1]
  obtain s2 where s2: "\<forall>x. g (s1, drop m w @ x) = Some (s2, drop n (drop m w) @ x)" ..
  have d: "drop n (drop m w) = drop (m + n) w" by (simp add: add.commute)
  have "\<forall>x. Option.bind (f (s, w @ x)) g = Some (s2, drop (m + n) w @ x)"
    unfolding d [symmetric] using s1 s2 by simp
  then show "\<exists>s'. \<forall>x. Option.bind (f (s, w @ x)) g = Some (s', drop (m + n) w @ x)" ..
qed

lemma reads_mac_lane: "reads 8 (mac_lane z vxa lane)"
proof (rule readsI)
  fix s :: "i32 list list" and w :: "u8 list"
  assume "length w < 8"
  then show "mac_lane z vxa lane (s, w) = None" by (simp add: mac_lane_def vld1_u8_w_def)
next
  fix s :: "i32 list list" and w :: "u8 list"
  assume "8 \<le> length w"
  then have "\<forall>x. mac_lane z vxa lane (s, w @ x)
      = Some (map2 (\<lambda>vacc_i vxa_i. vmlal_lane_s16 vacc_i
                      (vsubl_u8 (take 8 w) (replicate 8 z)) vxa_i lane) s vxa, drop 8 w @ x)"
    by (simp add: mac_lane_def vld1_u8_w_def Let_def)
  then show "\<exists>s'. \<forall>x. mac_lane z vxa lane (s, w @ x) = Some (s', drop 8 w @ x)" ..
qed

lemma reads_lanes:
  "reads (8 * length ls)
     (\<lambda>st. fold (\<lambda>lane r. Option.bind r (mac_lane z vxa lane)) ls (Some st))"
proof (induction ls rule: rev_induct)
  case Nil
  show ?case using reads_Some by (simp add: reads_def)
next
  case (snoc l ls)
  have "reads (8 * length ls + 8)
     (\<lambda>st. Option.bind (fold (\<lambda>lane r. Option.bind r (mac_lane z vxa lane)) ls (Some st))
              (mac_lane z vxa l))"
    using snoc.IH reads_mac_lane by (rule reads_bind)
  then show ?case by (simp add: add.commute)
qed

lemma channel_loop_reads:
  "(length w < 64 * (unat k div 8) \<longrightarrow> channel_loop mem z k a07 (vacc, w) = None)
   \<and> (64 * (unat k div 8) \<le> length w \<longrightarrow>
        (\<exists>a07' vacc'. \<forall>x. channel_loop mem z k a07 (vacc, w @ x)
           = Some (of_nat (unat k mod 8), a07', vacc', drop (64 * (unat k div 8)) w @ x)))"
proof (induction "unat k div 8" arbitrary: k a07 vacc w)
  case 0
  then have lt: "unat k < 8" by simp
  then have "\<not> 8 \<le> k" by (simp add: word_le_nat_alt)
  then have "\<forall>x. channel_loop mem z k a07 (vacc, w @ x) = Some (k, a07, vacc, w @ x)"
    by (subst channel_loop.simps) simp
  moreover have "of_nat (unat k mod 8) = k" using lt by simp
  ultimately show ?case using 0 by auto
next
  case (Suc m)
  then have ge: "8 \<le> unat k" by simp
  then have k8: "8 \<le> k" by (simp add: word_le_nat_alt)
  then have u: "unat (k - 8) = unat k - 8" by (simp add: unat_sub)
  have dm: "unat (k - 8) div 8 = m" "unat (k - 8) mod 8 = unat k mod 8"
    using Suc(2) ge unfolding u by (simp_all add: le_mod_geq)
  let ?vxa = "map (\<lambda>p. vmovl_u8 (vld1_u8 mem p)) a07"
  let ?a' = "map (\<lambda>p. p + 8) a07"
  define body where "body = (\<lambda>st. fold (\<lambda>lane r. Option.bind r (mac_lane z ?vxa lane))
                       [0, 1, 2, 3, 4, 5, 6, 7] (Some st))"
  have rb: "reads 64 body"
    unfolding body_def using reads_lanes [of "[0, 1, 2, 3, 4, 5, 6, 7]" z ?vxa]
    by (simp del: fold_simps)
  have unf: "channel_loop mem z k a07 st
               = (case body st of None \<Rightarrow> None
                  | Some st' \<Rightarrow> channel_loop mem z (k - 8) ?a' st')" for st
    using k8 unfolding body_def by (subst channel_loop.simps) (simp add: Let_def del: fold_simps)
  have n: "64 * (unat k div 8) = 64 + 64 * m" using Suc(2) by simp
  show ?case unfolding n
  proof (intro conjI impI)
    assume short: "length w < 64 + 64 * m"
    show "channel_loop mem z k a07 (vacc, w) = None"
    proof (cases "length w < 64")
      case True
      with rb have "body (vacc, w) = None" by (rule reads_short)
      then show ?thesis unfolding unf by simp
    next
      case False
      then have "64 \<le> length w" by simp
      from reads_enough [OF rb this, of vacc]
      obtain v1 where "\<forall>x. body (vacc, w @ x) = Some (v1, drop 64 w @ x)" ..
      from this [rule_format, of "[]"] have b: "body (vacc, w) = Some (v1, drop 64 w)" by simp
      have "length (drop 64 w) < 64 * (unat (k - 8) div 8)" using short False dm by simp
      with Suc(1) [OF dm(1) [symmetric], of "drop 64 w" ?a' v1]
      have "channel_loop mem z (k - 8) ?a' (v1, drop 64 w) = None" by blast
      then show ?thesis unfolding unf b by simp
    qed
  next
    assume enough: "64 + 64 * m \<le> length w"
    then have "64 \<le> length w" by simp
    from reads_enough [OF rb this, of vacc]
    obtain v1 where b: "\<forall>x. body (vacc, w @ x) = Some (v1, drop 64 w @ x)" ..
    have "64 * (unat (k - 8) div 8) \<le> length (drop 64 w)" using enough dm by simp
    with Suc(1) [OF dm(1) [symmetric], of "drop 64 w" ?a' v1]
    obtain a2 v2 where r: "\<forall>x. channel_loop mem z (k - 8) ?a' (v1, drop 64 w @ x)
        = Some (of_nat (unat (k - 8) mod 8), a2, v2, drop (64 * (unat (k - 8) div 8)) (drop 64 w) @ x)"
      by blast
    have d: "drop (64 * m) (drop 64 w) = drop (64 + 64 * m) w"
      by (simp add: add.commute)
    have r': "\<forall>x. channel_loop mem z (k - 8) ?a' (v1, drop 64 w @ x)
        = Some (of_nat (unat k mod 8), a2, v2, drop (64 + 64 * m) w @ x)"
      using r unfolding dm d .
    have "\<forall>x. channel_loop mem z k a07 (vacc, w @ x)
        = Some (of_nat (unat k mod 8), a2, v2, drop (64 + 64 * m) w @ x)"
      unfolding unf by (simp add: b r')
    then show "\<exists>a07' vacc'. \<forall>x. channel_loop mem z k a07 (vacc, w @ x)
        = Some (of_nat (unat k mod 8), a07', vacc', drop (64 + 64 * m) w @ x)"
      by blast
  qed
qed

lemma upt_small:
  "[0..<1] = [0]" "[0..<2] = [0, 1]" "[0..<3] = [0, 1, 2]" "[0..<4] = [0, 1, 2, 3]"
  "[0..<5] = [0, 1, 2, 3, 4]" "[0..<6] = [0, 1, 2, 3, 4, 5]" "[0..<7] = [0, 1, 2, 3, 4, 5, 6]"
  by (simp_all add: numeral_eq_Suc)

lemma word_cases_1_7:
  assumes "k \<noteq> 0" "(k :: size_t) < 8"
  shows "k \<in> {1, 2, 3, 4, 5, 6, 7}"
proof -
  have "1 \<le> k" using assms(1) by (simp add: word_le_nat_alt unat_gt_0 Suc_leI)
  moreover have "k \<le> 8" using assms(2) by simp
  ultimately have "k \<in> {1, 2, 3, 4, 5, 6, 7, 8}" by (rule word_cases_1_8)
  with assms(2) show ?thesis by auto
qed

lemma channel_tail_lanes:
  assumes "k \<noteq> 0" "k < 8"
  shows "channel_tail mem z k a07 st
           = fold (\<lambda>lane r. Option.bind r
                     (mac_lane z (map (\<lambda>p. vmovl_u8 (tail_load mem k p)) a07) lane))
               [0..<unat k] (Some st)"
  using word_cases_1_7 [OF assms]
  by (elim insertE emptyE)
     (simp_all add: channel_tail_def Let_def word_le_nat_alt word_less_nat_alt upt_small)

lemma reads_channel_tail:
  assumes "k \<noteq> 0" "k < 8"
  shows "reads (8 * unat k) (channel_tail mem z k a07)"
proof -
  have "reads (8 * length [0..<unat k])
          (\<lambda>st. fold (\<lambda>lane r. Option.bind r
                     (mac_lane z (map (\<lambda>p. vmovl_u8 (tail_load mem k p)) a07) lane))
               [0..<unat k] (Some st))"
    by (rule reads_lanes)
  then show ?thesis unfolding channel_tail_lanes [OF assms, symmetric] by simp
qed

lemma kernel_site_reads:
  assumes a: "8 \<le> length a"
  shows "(length w < 64 * (unat kc div 8) + 8 * (unat kc mod 8)
            \<longrightarrow> kernel_site mem z kc (vacc, w, a) = None)
         \<and> (64 * (unat kc div 8) + 8 * (unat kc mod 8) \<le> length w \<longrightarrow>
              (\<exists>vacc'. \<forall>x. kernel_site mem z kc (vacc, w @ x, a)
                 = Some (vacc', drop (64 * (unat kc div 8) + 8 * (unat kc mod 8)) w @ x,
                         drop 8 a)))"
proof -
  let ?m = "64 * (unat kc div 8)" and ?k = "of_nat (unat kc mod 8) :: size_t"
  have uk: "unat ?k = unat kc mod 8" by (simp add: unat_of_nat take_bit_nat_eq_self)
  have k8: "?k < 8" unfolding word_less_nat_alt uk by simp
  define tail where "tail = (\<lambda>a07 st. if ?k \<noteq> 0 then channel_tail mem z ?k a07 st else Some st)"
  have rt: "reads (8 * (unat kc mod 8)) (tail a07)" for a07
  proof (cases "?k = 0")
    case True
    then have "unat kc mod 8 = 0" using uk by simp
    with True show ?thesis unfolding tail_def using reads_Some by simp
  next
    case False
    from reads_channel_tail [OF False k8, of mem z a07] False show ?thesis
      unfolding tail_def uk by simp
  qed
  have unf: "kernel_site mem z kc (vacc, v, a)
      = (case channel_loop mem z kc (take 8 a) (vacc, v) of None \<Rightarrow> None
         | Some (k, a07, st) \<Rightarrow>
             (case (if k \<noteq> 0 then channel_tail mem z k a07 st else Some st) of None \<Rightarrow> None
              | Some (vacc', w') \<Rightarrow> Some (vacc', w', drop 8 a)))" for v
    using a by (simp add: kernel_site_def)
  note cl = channel_loop_reads [of w kc mem z "take 8 a" vacc]
  show ?thesis
  proof (intro conjI impI)
    assume short: "length w < ?m + 8 * (unat kc mod 8)"
    show "kernel_site mem z kc (vacc, w, a) = None"
    proof (cases "length w < ?m")
      case True
      with cl have "channel_loop mem z kc (take 8 a) (vacc, w) = None" by blast
      then show ?thesis unfolding unf by simp
    next
      case False
      then have "?m \<le> length w" by simp
      with cl obtain a2 v2 where "\<forall>x. channel_loop mem z kc (take 8 a) (vacc, w @ x)
           = Some (?k, a2, v2, drop ?m w @ x)" by blast
      from this [rule_format, of "[]"]
      have c: "channel_loop mem z kc (take 8 a) (vacc, w) = Some (?k, a2, v2, drop ?m w)" by simp
      have "length (drop ?m w) < 8 * (unat kc mod 8)" using short False by simp
      with rt have "tail a2 (v2, drop ?m w) = None" by (rule reads_short)
      then show ?thesis unfolding unf c by (simp add: tail_def)
    qed
  next
    assume enough: "?m + 8 * (unat kc mod 8) \<le> length w"
    then have "?m \<le> length w" by simp
    with cl obtain a2 v2 where c: "\<forall>x. channel_loop mem z kc (take 8 a) (vacc, w @ x)
           = Some (?k, a2, v2, drop ?m w @ x)" by blast
    have "8 * (unat kc mod 8) \<le> length (drop ?m w)" using enough by simp
    from reads_enough [OF rt this, of a2 v2]
    obtain v3 where t: "\<forall>x. tail a2 (v2, drop ?m w @ x)
        = Some (v3, drop (8 * (unat kc mod 8)) (drop ?m w) @ x)" ..
    have d: "drop (8 * (unat kc mod 8)) (drop ?m w) = drop (?m + 8 * (unat kc mod 8)) w"
      by (simp add: add.commute)
    have "\<forall>x. kernel_site mem z kc (vacc, w @ x, a)
        = Some (v3, drop (?m + 8 * (unat kc mod 8)) w @ x, drop 8 a)"
    proof
      fix x
      from t [rule_format, of x]
      have "(if ?k \<noteq> 0 then channel_tail mem z ?k a2 (v2, drop ?m w @ x)
             else Some (v2, drop ?m w @ x))
             = Some (v3, drop (?m + 8 * (unat kc mod 8)) w @ x)"
        unfolding tail_def d .
      then show "kernel_site mem z kc (vacc, w @ x, a)
        = Some (v3, drop (?m + 8 * (unat kc mod 8)) w @ x, drop 8 a)"
        unfolding unf c [rule_format, of x] by simp
    qed
    then show "\<exists>vacc'. \<forall>x. kernel_site mem z kc (vacc, w @ x, a)
                 = Some (vacc', drop (?m + 8 * (unat kc mod 8)) w @ x, drop 8 a)" ..
  qed
qed

lemma site_loop_reads:
  assumes "unat ks = Suc m" "8 * Suc m \<le> length a"
  shows "(length w < Suc m * (64 * (unat kc div 8) + 8 * (unat kc mod 8))
            \<longrightarrow> site_loop mem z kc ks (vacc, w, a) = None)
         \<and> (Suc m * (64 * (unat kc div 8) + 8 * (unat kc mod 8)) \<le> length w \<longrightarrow>
              (\<exists>vacc'. \<forall>x. site_loop mem z kc ks (vacc, w @ x, a)
                 = Some (vacc', drop (Suc m * (64 * (unat kc div 8) + 8 * (unat kc mod 8))) w @ x,
                         drop (8 * Suc m) a)))"
  using assms
proof (induction m arbitrary: ks vacc w a)
  case 0
  let ?b = "64 * (unat kc div 8) + 8 * (unat kc mod 8)"
  from 0 have a8: "8 \<le> length a" by simp
  have "ks = 1" using 0(1) by (intro word_eq_unatI) simp
  then have unf: "site_loop mem z kc ks st = kernel_site mem z kc st" for st
    by (subst site_loop.simps) (simp split: option.splits)
  from kernel_site_reads [OF a8, of w kc mem z vacc] show ?case unfolding unf by simp
next
  case (Suc m)
  define b where "b = 64 * (unat kc div 8) + 8 * (unat kc mod 8)"
  from Suc(3) have a8: "8 \<le> length a" by simp
  have k0: "ks \<noteq> 0" using Suc(2) by (auto simp: unat_eq_0)
  have u1: "unat (ks - 1) = Suc m" using Suc(2) k0 by (simp add: unat_minus_one)
  then have k1: "ks - 1 \<noteq> 0" by (auto simp: unat_eq_0)
  have unf: "site_loop mem z kc ks st
      = (case kernel_site mem z kc st of None \<Rightarrow> None
         | Some st' \<Rightarrow> site_loop mem z kc (ks - 1) st')" for st
    using k1 by (subst site_loop.simps) (simp split: option.splits)
  have al: "8 * Suc m \<le> length (drop 8 a)" using Suc(3) by simp
  note ks = kernel_site_reads [OF a8, of w kc mem z vacc, folded b_def]
  note ih = Suc(1) [OF u1 al, folded b_def]
  have n: "Suc (Suc m) * b = b + Suc m * b" by simp
  have da: "drop (8 * Suc m) (drop 8 a) = drop (8 * Suc (Suc m)) a" by (simp add: add.commute)
  show ?case unfolding b_def [symmetric] n
  proof (intro conjI impI)
    assume short: "length w < b + Suc m * b"
    show "site_loop mem z kc ks (vacc, w, a) = None"
    proof (cases "length w < b")
      case True
      with ks have "kernel_site mem z kc (vacc, w, a) = None" by blast
      then show ?thesis unfolding unf by simp
    next
      case False
      then have "b \<le> length w" by simp
      with ks obtain v1 where "\<forall>x. kernel_site mem z kc (vacc, w @ x, a)
          = Some (v1, drop b w @ x, drop 8 a)" by blast
      from this [rule_format, of "[]"]
      have c: "kernel_site mem z kc (vacc, w, a) = Some (v1, drop b w, drop 8 a)" by simp
      have "length (drop b w) < Suc m * b" using short False unfolding length_drop by linarith
      with ih [of "drop b w" v1]
      have "site_loop mem z kc (ks - 1) (v1, drop b w, drop 8 a) = None" by blast
      then show ?thesis unfolding unf c by simp
    qed
  next
    assume enough: "b + Suc m * b \<le> length w"
    then have "b \<le> length w" by simp
    with ks obtain v1 where c: "\<forall>x. kernel_site mem z kc (vacc, w @ x, a)
          = Some (v1, drop b w @ x, drop 8 a)" by blast
    have "Suc m * b \<le> length (drop b w)" using enough unfolding length_drop by linarith
    with ih [of "drop b w" v1]
    obtain v2 where r: "\<forall>x. site_loop mem z kc (ks - 1) (v1, drop b w @ x, drop 8 a)
        = Some (v2, drop (Suc m * b) (drop b w) @ x, drop (8 * Suc m) (drop 8 a))" by blast
    have d: "drop (Suc m * b) (drop b w) = drop (b + Suc m * b) w"
      by (simp only: drop_drop add.commute)
    have "\<forall>x. site_loop mem z kc ks (vacc, w @ x, a)
        = Some (v2, drop (b + Suc m * b) w @ x, drop (8 * Suc (Suc m)) a)"
    proof
      fix x
      show "site_loop mem z kc ks (vacc, w @ x, a)
        = Some (v2, drop (b + Suc m * b) w @ x, drop (8 * Suc (Suc m)) a)"
        unfolding unf c [rule_format, of x] using r [rule_format, of x] unfolding d da by simp
    qed
    then show "\<exists>vacc'. \<forall>x. site_loop mem z kc ks (vacc, w @ x, a)
        = Some (vacc', drop (b + Suc m * b) w @ x, drop (8 * Suc (Suc m)) a)" ..
  qed
qed

lemma vld1q_s32_reads:
  "reads 16 (\<lambda>(s, w). case vld1q_s32 w of None \<Rightarrow> None | Some (v, w') \<Rightarrow> Some (s @ v, w'))"
proof (rule readsI)
  fix s :: "i32 list" and w :: "u8 list"
  assume "length w < 16"
  then show "(case (s, w) of (s, w) \<Rightarrow>
               case vld1q_s32 w of None \<Rightarrow> None | Some (v, w') \<Rightarrow> Some (s @ v, w')) = None"
    by (simp add: vld1q_s32_def)
next
  fix s :: "i32 list" and w :: "u8 list"
  assume l: "16 \<le> length w"
  have u: "[0..<4] = [0, 1, 2, 3]" by (simp add: numeral_eq_Suc)
  have "\<forall>x. vld1q_s32 (w @ x)
          = Some (map (\<lambda>i. word_rcat (rev (take 4 (drop (4 * i) w)))) [0..<4], drop 16 w @ x)"
    using l unfolding vld1q_s32_def u by simp
  then have "\<forall>x. (case (s, w @ x) of (s, w) \<Rightarrow>
               case vld1q_s32 w of None \<Rightarrow> None | Some (v, w') \<Rightarrow> Some (s @ v, w'))
          = Some (s @ map (\<lambda>i. word_rcat (rev (take 4 (drop (4 * i) w)))) [0..<4], drop 16 w @ x)"
    by simp
  then show "\<exists>s'. \<forall>x. (case (s, w @ x) of (s, w) \<Rightarrow>
               case vld1q_s32 w of None \<Rightarrow> None | Some (v, w') \<Rightarrow> Some (s @ v, w'))
          = Some (s', drop 16 w @ x)" ..
qed

lemma accumulate_reads:
  assumes "ks \<noteq> 0" "8 * unat ks \<le> length a"
  shows "(length w < 32 + unat ks * (64 * (unat kc div 8) + 8 * (unat kc mod 8))
            \<longrightarrow> accumulate mem z kc ks a w = None)
         \<and> (32 + unat ks * (64 * (unat kc div 8) + 8 * (unat kc mod 8)) \<le> length w \<longrightarrow>
              (\<exists>vacc. \<forall>x. accumulate mem z kc ks a (w @ x)
                 = Some (vacc, drop (32 + unat ks * (64 * (unat kc div 8) + 8 * (unat kc mod 8))) w @ x,
                         drop (8 * unat ks) a)))"
proof -
  define B where "B = unat ks * (64 * (unat kc div 8) + 8 * (unat kc mod 8))"
  let ?ld = "\<lambda>(s :: i32 list, w). case vld1q_s32 w of None \<Rightarrow> None | Some (v, w') \<Rightarrow> Some (s @ v, w')"
  have "reads (16 + 16) (\<lambda>st. Option.bind (?ld st) ?ld)"
    using vld1q_s32_reads vld1q_s32_reads by (rule reads_bind)
  then have rb: "reads 32 (\<lambda>st. Option.bind (?ld st) ?ld)" by simp
  have unf: "accumulate mem z kc ks a v
      = (case Option.bind (?ld ([], v)) ?ld of None \<Rightarrow> None
         | Some (bias, w') \<Rightarrow> site_loop mem z kc ks (replicate 8 bias, w', a))" for v
    by (simp add: accumulate_def split: option.splits)
  from assms(1) obtain m where m: "unat ks = Suc m" by (cases "unat ks") (auto simp: unat_eq_0)
  note sl = site_loop_reads [OF m assms(2) [unfolded m], where kc = kc, folded m, folded B_def]
  show ?thesis unfolding B_def [symmetric]
  proof (intro conjI impI)
    assume short: "length w < 32 + B"
    show "accumulate mem z kc ks a w = None"
    proof (cases "length w < 32")
      case True
      with rb have "Option.bind (?ld ([], w)) ?ld = None" by (rule reads_short)
      then show ?thesis unfolding unf by simp
    next
      case False
      then have "32 \<le> length w" by simp
      from reads_enough [OF rb this, of "[]"]
      obtain bias where "\<forall>x. Option.bind (?ld ([], w @ x)) ?ld = Some (bias, drop 32 w @ x)" ..
      from this [rule_format, of "[]"]
      have c: "Option.bind (?ld ([], w)) ?ld = Some (bias, drop 32 w)" by simp
      have "length (drop 32 w) < B" using short False unfolding length_drop by linarith
      with sl [of "drop 32 w" mem z "replicate 8 bias"]
      have "site_loop mem z kc ks (replicate 8 bias, drop 32 w, a) = None" by blast
      then show ?thesis unfolding unf c by simp
    qed
  next
    assume enough: "32 + B \<le> length w"
    then have "32 \<le> length w" by simp
    from reads_enough [OF rb this, of "[]"]
    obtain bias where c: "\<forall>x. Option.bind (?ld ([], w @ x)) ?ld = Some (bias, drop 32 w @ x)" ..
    have "B \<le> length (drop 32 w)" using enough unfolding length_drop by linarith
    with sl [of "drop 32 w" mem z "replicate 8 bias"]
    obtain v2 where r: "\<forall>x. site_loop mem z kc ks (replicate 8 bias, drop 32 w @ x, a)
        = Some (v2, drop B (drop 32 w) @ x, drop (8 * unat ks) a)" by blast
    have d: "drop B (drop 32 w) = drop (32 + B) w" by (simp only: drop_drop add.commute)
    have "\<forall>x. accumulate mem z kc ks a (w @ x) = Some (v2, drop (32 + B) w @ x, drop (8 * unat ks) a)"
    proof
      fix x
      show "accumulate mem z kc ks a (w @ x) = Some (v2, drop (32 + B) w @ x, drop (8 * unat ks) a)"
        unfolding unf c [rule_format, of x] using r [rule_format, of x] unfolding d by simp
    qed
    then show "\<exists>vacc. \<forall>x. accumulate mem z kc ks a (w @ x)
                 = Some (vacc, drop (32 + B) w @ x, drop (8 * unat ks) a)" ..
  qed
qed

text \<open>
  Claim C8.  For a kernel call with \<open>ks \<ge> 1\<close> whose indirection slice holds the \<open>8 * ks\<close>
  pointers it loads, the call returns exactly when the weight stream holds
  \<open>32 + ks * (\<lfloor>kc / 8\<rfloor> * 64 + 8 * (kc mod 8))\<close> bytes: it needs every one of them.  It then
  leaves the stream at that offset, and the bytes behind it are not read: the call on the
  stream cut at that length gives the same result.  This holds for every \<open>mr\<close>, \<open>nr\<close> and
  \<open>kc\<close>.
\<close>

theorem weight_extent:
  assumes "ks \<noteq> 0" "8 * unat ks \<le> length a"
  shows "(q8conv_ukernel_8x8__neon mr nr kc ks a w c c_stride quantization_params mem \<noteq> None)
           = (32 + unat ks * (unat kc div 8 * 64 + 8 * (unat kc mod 8)) \<le> length w)
         \<and> (32 + unat ks * (unat kc div 8 * 64 + 8 * (unat kc mod 8)) \<le> length w \<longrightarrow>
              (\<exists>vacc. accumulate mem (kernel_zero_point quantization_params) kc ks a w
                        = Some (vacc,
                                drop (32 + unat ks * (unat kc div 8 * 64 + 8 * (unat kc mod 8))) w,
                                drop (8 * unat ks) a))
              \<and> q8conv_ukernel_8x8__neon mr nr kc ks a
                   (take (32 + unat ks * (unat kc div 8 * 64 + 8 * (unat kc mod 8))) w)
                   c c_stride quantization_params mem
                 = q8conv_ukernel_8x8__neon mr nr kc ks a w c c_stride quantization_params mem)"
proof -
  define T where "T = 32 + unat ks * (unat kc div 8 * 64 + 8 * (unat kc mod 8))"
  have T: "T = 32 + unat ks * (64 * (unat kc div 8) + 8 * (unat kc mod 8))"
    unfolding T_def by (simp add: mult.commute)
  let ?z = "kernel_zero_point quantization_params"
  note ar = accumulate_reads [OF assms, where kc = kc and mem = mem and z = ?z, folded T]
  have k: "(q8conv_ukernel_8x8__neon mr nr kc ks a v c c_stride quantization_params mem \<noteq> None)
             = (accumulate mem ?z kc ks a v \<noteq> None)" for v
    by (simp add: q8conv_ukernel_8x8__neon_def Let_def split: option.splits)
  have iff: "(accumulate mem ?z kc ks a w \<noteq> None) = (T \<le> length w)"
  proof (cases "T \<le> length w")
    case True
    with ar [of w] obtain vacc where "\<forall>x. accumulate mem ?z kc ks a (w @ x)
        = Some (vacc, drop T w @ x, drop (8 * unat ks) a)" by blast
    from this [rule_format, of "[]"] True show ?thesis by simp
  next
    case False
    then have "length w < T" by simp
    with ar [of w] False show ?thesis by simp
  qed
  have rest: "(\<exists>vacc. accumulate mem ?z kc ks a w = Some (vacc, drop T w, drop (8 * unat ks) a))
              \<and> q8conv_ukernel_8x8__neon mr nr kc ks a (take T w) c c_stride quantization_params mem
                 = q8conv_ukernel_8x8__neon mr nr kc ks a w c c_stride quantization_params mem"
    if "T \<le> length w"
  proof -
    from that have "T \<le> length (take T w)" by simp
    with ar [of "take T w"] obtain vacc where v: "\<forall>x. accumulate mem ?z kc ks a (take T w @ x)
        = Some (vacc, drop T (take T w) @ x, drop (8 * unat ks) a)" by blast
    from v [rule_format, of "drop T w"]
    have full: "accumulate mem ?z kc ks a w = Some (vacc, drop T w, drop (8 * unat ks) a)" by simp
    from v [rule_format, of "[]"]
    have pre: "accumulate mem ?z kc ks a (take T w) = Some (vacc, [], drop (8 * unat ks) a)" by simp
    have "q8conv_ukernel_8x8__neon mr nr kc ks a (take T w) c c_stride quantization_params mem
            = q8conv_ukernel_8x8__neon mr nr kc ks a w c c_stride quantization_params mem"
      unfolding q8conv_ukernel_8x8__neon_def full pre by simp
    with full show ?thesis by blast
  qed
  show ?thesis unfolding T_def [symmetric] k using iff rest by blast
qed

text \<open>
  Claim C8 for \<open>kc = 11\<close> (one chunk of 8 channels and a tail of 3) and \<open>ks = 1\<close>: the extent
  is \<open>32 + 64 + 24 = 120\<close> bytes of the 132 in the stream; 119 bytes are not enough.
\<close>

theorem weight_extent_witness:
  "q8conv_ukernel_8x8__neon 8 8 11 1 scenario_a tail_w 8192 8 scenario_params scenario_mem \<noteq> None
   \<and> q8conv_ukernel_8x8__neon 8 8 11 1 scenario_a (take 120 tail_w) 8192 8 scenario_params
        scenario_mem
      = q8conv_ukernel_8x8__neon 8 8 11 1 scenario_a tail_w 8192 8 scenario_params scenario_mem
   \<and> q8conv_ukernel_8x8__neon 8 8 11 1 scenario_a (take 119 tail_w) 8192 8 scenario_params
        scenario_mem = None"
proof -
  have h: "(1 :: size_t) \<noteq> 0" "8 * unat (1 :: size_t) \<le> length scenario_a"
    by (simp_all add: scenario_a_def)
  have t: "32 + unat (1 :: size_t) * (unat (11 :: size_t) div 8 * 64 + 8 * (unat (11 :: size_t) mod 8))
             = 120"
    by simp
  have l: "120 \<le> length tail_w" "\<not> 120 \<le> length (take 119 tail_w)" by (simp_all add: tail_w_def)
  from weight_extent [OF h, of 8 8 11 tail_w 8192 8 scenario_params scenario_mem]
    weight_extent [OF h, of 8 8 11 "take 119 tail_w" 8192 8 scenario_params scenario_mem]
  show ?thesis unfolding t using l by blast
qed
section \<open>The tail of the channel reduction\<close>

lemma bit_bytes:
  "bit (foldr (\<lambda>b x. ucast b OR push_bit 8 x) bs (0 :: 64 word)) n
     = (n < 64 \<and> n div 8 < length bs \<and> bit (bs ! (n div 8) :: u8) (n mod 8))"
proof (induction bs arbitrary: n)
  case Nil
  show ?case by simp
next
  case (Cons b bs)
  show ?case
  proof (cases "n < 8")
    case True
    then show ?thesis by (simp add: bit_simps)
  next
    case False
    then have n: "n div 8 = Suc ((n - 8) div 8)" "n mod 8 = (n - 8) mod 8"
      by (simp_all add: le_div_geq le_mod_geq)
    have "\<not> bit b n" using False by (auto dest: bit_imp_le_length)
    then show ?thesis using False Cons.IH [of "n - 8"] unfolding n
      by (auto simp add: bit_simps)
  qed
qed

lemma byte_of_bytes:
  "(ucast (drop_bit (8 * i) (vreinterpret_u64_u8 bs)) :: u8)
     = (if i < 8 \<and> i < length bs then bs ! i else 0)"
proof (rule bit_eqI)
  fix n
  assume "possible_bit TYPE(u8) n"
  then have n8: "n < 8" by simp
  then have d: "(8 * i + n) div 8 = i" "(8 * i + n) mod 8 = n" by simp_all
  have l: "(8 * i + n < 64) = (i < 8)" using n8 by auto
  show "bit (ucast (drop_bit (8 * i) (vreinterpret_u64_u8 bs)) :: u8) n
          = bit (if i < 8 \<and> i < length bs then bs ! i else 0) n"
    using n8 unfolding vreinterpret_u64_u8_def
    by (auto simp add: bit_simps bit_bytes d l)
qed

lemma tail_shift:
  assumes "k \<noteq> 0" "(k :: size_t) < 8"
  shows "vshl_u64 x (- 8 * (8 - k)) = drop_bit (8 * (8 - unat k)) x"
proof -
  define d where "d = 8 - unat k"
  have k: "0 < unat k" "unat k < 8" using assms by (simp_all add: word_less_nat_alt unat_gt_0)
  then have d: "0 < d" "d \<le> 7" unfolding d_def by simp_all
  have "unat (8 - k) = d" unfolding d_def using assms(2) by (simp add: unat_sub)
  then have "of_nat (unat (8 - k)) = (of_nat d :: 64 word)" by simp
  then have "8 - k = of_nat d" by simp
  then have a: "(- 8 * (8 - k) :: 64 word) = word_of_int (- 8 * int d)" by simp
  have dn: "is_down (ucast :: 64 word \<Rightarrow> 8 word)" by (simp add: is_down)
  have e8: "(ucast (- 8 * (8 - k) :: 64 word) :: 8 word) = word_of_int (- 8 * int d)"
    unfolding a using dn by (rule ucast_down_wi)
  have "sint (word_of_int (- 8 * int d) :: 8 word)
          = signed_take_bit (LENGTH(8) - 1) (- 8 * int d)"
    by (rule sint_sbintrunc')
  also have "\<dots> = - 8 * int d" using d by (intro signed_take_bit_int_eq_self) simp_all
  finally have s: "sint (ucast (- 8 * (8 - k) :: 64 word) :: 8 word) = - 8 * int d"
    unfolding e8 .
  have n: "nat (8 * int d) = 8 * d" by simp
  show ?thesis unfolding vshl_u64_def s Let_def d_def [symmetric] using d(1) n by simp
qed

lemma tail_load_lanes:
  assumes "k \<noteq> 0" "(k :: size_t) < 8"
  shows "tail_load mem k p = map (\<lambda>c. if c < unat k then mem (p + of_nat c) else 0) [0..<8]"
proof -
  have k: "0 < unat k" "unat k < 8" using assms by (simp_all add: word_less_nat_alt unat_gt_0)
  let ?bs = "vld1_u8 mem (p - (8 - k))"
  have l: "length ?bs = 8" by (simp add: vld1_u8_def)
  have u8k: "unat (8 - k) = 8 - unat k" using assms(2) by (simp add: unat_sub)
  have lane: "(ucast (drop_bit (8 * c) (drop_bit (8 * (8 - unat k)) (vreinterpret_u64_u8 ?bs))) :: u8)
                = (if c < unat k then mem (p + of_nat c) else 0)" if "c < 8" for c
  proof -
    have "drop_bit (8 * c) (drop_bit (8 * (8 - unat k)) (vreinterpret_u64_u8 ?bs))
            = drop_bit (8 * (c + (8 - unat k))) (vreinterpret_u64_u8 ?bs)"
      by (simp add: drop_bit_drop_bit algebra_simps)
    then have "(ucast (drop_bit (8 * c) (drop_bit (8 * (8 - unat k)) (vreinterpret_u64_u8 ?bs))) :: u8)
            = ucast (drop_bit (8 * (c + (8 - unat k))) (vreinterpret_u64_u8 ?bs))"
      by (rule arg_cong)
    also have "\<dots> = (if c + (8 - unat k) < 8 then ?bs ! (c + (8 - unat k)) else 0)"
      unfolding byte_of_bytes l by simp
    also have "\<dots> = (if c < unat k then mem (p + of_nat c) else 0)"
    proof (cases "c < unat k")
      case True
      then have i: "c + (8 - unat k) < 8" using k by simp
      have "(of_nat (unat (8 - k)) :: 64 word) = 8 - k" by simp
      then have w: "(of_nat (8 - unat k) :: 64 word) = 8 - k" unfolding u8k .
      have e: "p - (8 - k) + of_nat (c + (8 - unat k)) = p + of_nat c"
        unfolding of_nat_add w by simp
      have "?bs ! (c + (8 - unat k)) = mem (p - (8 - k) + of_nat (c + (8 - unat k)))"
        using i unfolding vld1_u8_def by (simp del: of_nat_add)
      then have "?bs ! (c + (8 - unat k)) = mem (p + of_nat c)" unfolding e .
      with i True show ?thesis by (simp only: if_True)
    next
      case False
      then have "\<not> c + (8 - unat k) < 8" using k by simp
      with False show ?thesis by simp
    qed
    finally show ?thesis .
  qed
  have "tail_load mem k p
          = map (\<lambda>c. ucast (drop_bit (8 * c)
                   (drop_bit (8 * (8 - unat k)) (vreinterpret_u64_u8 ?bs)))) [0..<8]"
    unfolding tail_load_def Let_def tail_shift [OF assms] vreinterpret_u8_u64_def ..
  also have "\<dots> = map (\<lambda>c. if c < unat k then mem (p + of_nat c) else 0) [0..<8]"
  proof (rule map_cong [OF refl])
    fix c assume "c \<in> set [0..<8]"
    then have "c < 8" by simp
    then show "(ucast (drop_bit (8 * c) (drop_bit (8 * (8 - unat k)) (vreinterpret_u64_u8 ?bs))) :: u8)
                = (if c < unat k then mem (p + of_nat c) else 0)"
      by (rule lane)
  qed
  finally show ?thesis .
qed

lemma uint_u8_bounds: "0 \<le> uint (x :: u8)" "uint (x :: u8) < 256"
  using uint_lt2p [of x] by simp_all

lemma widen_activation: "(scast (ucast (a :: u8) :: i16) :: i32) = word_of_int (uint a)"
proof -
  have "(ucast a :: i16) = word_of_int (uint a)" by (rule ucast_eq)
  then have "sint (ucast a :: i16) = sint (word_of_int (uint a) :: i16)" by (rule arg_cong)
  also have "\<dots> = uint a"
  proof -
    have "- 32768 \<le> uint a" "uint a < 32768" using uint_u8_bounds [of a] by linarith+
    then have "- (2 ^ 15) \<le> uint a" "uint a < 2 ^ 15" by simp_all
    then show ?thesis by (rule sint_word_of_int_i16)
  qed
  finally show ?thesis unfolding scast_eq by (rule arg_cong)
qed

lemma widen_weight:
  "(scast (ucast (x :: u8) - ucast (y :: u8) :: i16) :: i32) = word_of_int (uint x - uint y)"
proof -
  have "(ucast x :: i16) = word_of_int (uint x)" "(ucast y :: i16) = word_of_int (uint y)"
    by (rule ucast_eq)+
  then have "(ucast x - ucast y :: i16) = word_of_int (uint x - uint y)"
    by (simp only: of_int_diff)
  then have "sint (ucast x - ucast y :: i16) = sint (word_of_int (uint x - uint y) :: i16)"
    by (rule arg_cong)
  also have "\<dots> = uint x - uint y"
  proof -
    have "- 32768 \<le> uint x - uint y" "uint x - uint y < 32768"
      using uint_u8_bounds [of x] uint_u8_bounds [of y] by linarith+
    then have "- (2 ^ 15) \<le> uint x - uint y" "uint x - uint y < 2 ^ 15" by simp_all
    then show ?thesis by (rule sint_word_of_int_i16)
  qed
  finally show ?thesis unfolding scast_eq by (rule arg_cong)
qed

lemma mac_lane_step:
  assumes "8 \<le> length w" "length vacc = 8" "\<forall>i<8. length (vacc ! i) = 8" "length vxa = 8"
  shows "\<exists>vacc'. mac_lane z vxa lane (vacc, w) = Some (vacc', drop 8 w)
           \<and> length vacc' = 8 \<and> (\<forall>i<8. length (vacc' ! i) = 8)
           \<and> (\<forall>i<8. \<forall>j<8. vacc' ! i ! j
                  = vacc ! i ! j + scast (ucast (w ! j) - ucast z :: i16) * scast (vxa ! i ! lane))"
proof -
  define vxb where "vxb = vsubl_u8 (take 8 w) (replicate 8 z)"
  define vacc' where "vacc' = map2 (\<lambda>vacc_i vxa_i. vmlal_lane_s16 vacc_i vxb vxa_i lane) vacc vxa"
  have m: "mac_lane z vxa lane (vacc, w) = Some (vacc', drop 8 w)"
    using assms(1) by (simp add: mac_lane_def vld1_u8_w_def Let_def vxb_def vacc'_def)
  have lb: "length vxb = 8" using assms(1) by (simp add: vxb_def vsubl_u8_def)
  have b: "vxb ! j = ucast (w ! j) - ucast z" if "j < 8" for j
    using that assms(1) by (simp add: vxb_def vsubl_u8_def)
  have row: "vacc' ! i = vmlal_lane_s16 (vacc ! i) vxb (vxa ! i) lane" if "i < 8" for i
    using that assms(2,4) by (simp add: vacc'_def)
  have l1: "length vacc' = 8" using assms(2,4) by (simp add: vacc'_def)
  have l2: "\<forall>i<8. length (vacc' ! i) = 8"
  proof (intro allI impI)
    fix i :: nat assume i: "i < 8"
    then have "length (vacc ! i) = 8" using assms(3) by simp
    then show "length (vacc' ! i) = 8"
      unfolding row [OF i] by (simp add: vmlal_lane_s16_def lb)
  qed
  have v: "\<forall>i<8. \<forall>j<8. vacc' ! i ! j
      = vacc ! i ! j + scast (ucast (w ! j) - ucast z :: i16) * scast (vxa ! i ! lane)"
  proof (intro allI impI)
    fix i j :: nat assume i: "i < 8" and j: "j < 8"
    from i have "length (vacc ! i) = 8" using assms(3) by simp
    then have "vmlal_lane_s16 (vacc ! i) vxb (vxa ! i) lane ! j
        = vacc ! i ! j + scast (vxb ! j) * scast (vxa ! i ! lane)"
      using j lb by (simp add: vmlal_lane_s16_def)
    then show "vacc' ! i ! j
      = vacc ! i ! j + scast (ucast (w ! j) - ucast z :: i16) * scast (vxa ! i ! lane)"
      unfolding row [OF i] b [OF j] .
  qed
  from m l1 l2 v show ?thesis by (intro exI [of _ vacc'] conjI)
qed

lemma lanes_sum:
  assumes "8 * length ls \<le> length w" "length vacc = 8" "\<forall>i<8. length (vacc ! i) = 8"
    "length vxa = 8"
  shows "\<exists>vacc'. fold (\<lambda>lane r. Option.bind r (mac_lane z vxa lane)) ls (Some (vacc, w))
                    = Some (vacc', drop (8 * length ls) w)
           \<and> length vacc' = 8 \<and> (\<forall>i<8. length (vacc' ! i) = 8)
           \<and> (\<forall>i<8. \<forall>j<8. vacc' ! i ! j
                  = vacc ! i ! j
                    + (\<Sum>n<length ls. scast (ucast (w ! (8 * n + j)) - ucast z :: i16)
                                          * scast (vxa ! i ! (ls ! n))))"
  using assms
proof (induction ls arbitrary: vacc w)
  case Nil
  then show ?case by simp
next
  case (Cons l ls)
  let ?f = "\<lambda>lane r. Option.bind r (mac_lane z vxa lane)"
  from Cons.prems(1) have w8: "8 \<le> length w" by simp
  from mac_lane_step [OF w8 Cons.prems(2-4), of z l]
  obtain v1 where v1: "mac_lane z vxa l (vacc, w) = Some (v1, drop 8 w)"
    "length v1 = 8" "\<forall>i<8. length (v1 ! i) = 8"
    "\<forall>i<8. \<forall>j<8. v1 ! i ! j
        = vacc ! i ! j + scast (ucast (w ! j) - ucast z :: i16) * scast (vxa ! i ! l)"
    by blast
  have "8 * length ls \<le> length (drop 8 w)" using Cons.prems(1) by simp
  from Cons.IH [OF this v1(2,3) Cons.prems(4)]
  obtain v2 where v2: "fold ?f ls (Some (v1, drop 8 w)) = Some (v2, drop (8 * length ls) (drop 8 w))"
    "length v2 = 8" "\<forall>i<8. length (v2 ! i) = 8"
    "\<forall>i<8. \<forall>j<8. v2 ! i ! j
        = v1 ! i ! j + (\<Sum>n<length ls. scast (ucast (drop 8 w ! (8 * n + j)) - ucast z :: i16)
                                          * scast (vxa ! i ! (ls ! n)))"
    by blast
  have d: "drop (8 * length ls) (drop 8 w) = drop (8 * length (l # ls)) w"
    by (simp add: add.commute)
  have f: "fold ?f (l # ls) (Some (vacc, w)) = Some (v2, drop (8 * length (l # ls)) w)"
    using v1(1) v2(1) unfolding d by simp
  have s: "v2 ! i ! j = vacc ! i ! j
             + (\<Sum>n<length (l # ls). scast (ucast (w ! (8 * n + j)) - ucast z :: i16)
                                          * scast (vxa ! i ! ((l # ls) ! n)))"
    if i: "i < 8" and j: "j < 8" for i j
  proof -
    have nd: "drop 8 w ! (8 * n + j) = w ! (8 * Suc n + j)" for n
      using w8 by (simp add: add.assoc)
    have "v2 ! i ! j = v1 ! i ! j
            + (\<Sum>n<length ls. scast (ucast (w ! (8 * Suc n + j)) - ucast z :: i16)
                                          * scast (vxa ! i ! ((l # ls) ! Suc n)))"
      using v2(4) [rule_format, OF i j] unfolding nd by simp
    also have "v1 ! i ! j
        = vacc ! i ! j + scast (ucast (w ! (8 * 0 + j)) - ucast z :: i16)
                          * scast (vxa ! i ! ((l # ls) ! 0))"
      using v1(4) [rule_format, OF i j] by simp
    finally show ?thesis
      by (simp only: length_Cons sum.lessThan_Suc_shift add.assoc)
  qed
  from s have "\<forall>i<8. \<forall>j<8. v2 ! i ! j = vacc ! i ! j
             + (\<Sum>n<length (l # ls). scast (ucast (w ! (8 * n + j)) - ucast z :: i16)
                                          * scast (vxa ! i ! ((l # ls) ! n)))"
    by blast
  with f v2(2,3) show ?case by (intro exI [of _ v2] conjI)
qed

lemma upt_8: "[0..<8] = [0, 1, 2, 3, 4, 5, 6, 7]"
  by (simp add: numeral_eq_Suc)

text \<open>
  Claim C4.  For a tail of \<open>k\<close> channels, \<open>1 \<le> k \<le> 7\<close>, each row is loaded as the 8 bytes
  starting at \<open>a\<^sub>i - (8 - k)\<close>, that is the bytes at \<open>a\<^sub>i - (8 - k) .. a\<^sub>i + k - 1\<close>, and the
  64-bit lane is shifted to the right by \<open>8 * (8 - k)\<close> bits: the \<open>k\<close> valid bytes
  \<open>a\<^sub>i .. a\<^sub>i + k - 1\<close> are lanes \<open>0 .. k - 1\<close> and the lanes from \<open>k\<close> on are zero.  The load
  ends with the last tail channel; the \<open>8 - k\<close> bytes it reads in front of \<open>a\<^sub>i\<close> are shifted
  out.  Given the \<open>8 * k\<close> weight bytes, the tail adds to the accumulator of row \<open>i\<close> and
  column \<open>j\<close> the sum over the \<open>k\<close> tail channels of activation times (weight minus kernel
  zero point), in 32-bit arithmetic.
\<close>

theorem tail_reduction:
  assumes "k \<noteq> 0" "k < 8" "length a07 = 8" "length vacc = 8" "\<forall>i<8. length (vacc ! i) = 8"
    "8 * unat k \<le> length w"
  shows "(\<forall>p. tail_load mem k p
               = vreinterpret_u8_u64
                   (drop_bit (8 * (8 - unat k)) (vreinterpret_u64_u8 (vld1_u8 mem (p - (8 - k)))))
             \<and> tail_load mem k p
               = map (\<lambda>c. if c < unat k then mem (p + of_nat c) else 0) [0..<8])
         \<and> (\<exists>vacc'. channel_tail mem z k a07 (vacc, w) = Some (vacc', drop (8 * unat k) w)
               \<and> (\<forall>i<8. \<forall>j<8. vacc' ! i ! j
                      = vacc ! i ! j
                        + word_of_int (\<Sum>c<unat k. uint (mem (a07 ! i + of_nat c))
                                                      * (uint (w ! (8 * c + j)) - uint z))))"
proof (intro conjI allI)
  fix p
  show "tail_load mem k p
          = vreinterpret_u8_u64
              (drop_bit (8 * (8 - unat k)) (vreinterpret_u64_u8 (vld1_u8 mem (p - (8 - k)))))"
    unfolding tail_load_def Let_def tail_shift [OF assms(1,2)] ..
  show "tail_load mem k p = map (\<lambda>c. if c < unat k then mem (p + of_nat c) else 0) [0..<8]"
    using assms(1,2) by (rule tail_load_lanes)
next
  have k8: "unat k < 8" using assms(2) by (simp add: word_less_nat_alt)
  define vxa where "vxa = map (\<lambda>p. vmovl_u8 (tail_load mem k p)) a07"
  have lx: "length vxa = 8" using assms(3) by (simp add: vxa_def)
  have lane: "vxa ! i ! c = ucast (mem (a07 ! i + of_nat c))" if "i < 8" "c < unat k" for i c
  proof -
    have "vxa ! i = vmovl_u8 (tail_load mem k (a07 ! i))" using that(1) assms(3) by (simp add: vxa_def)
    also have "\<dots> ! c = ucast (mem (a07 ! i + of_nat c))"
      using that(2) k8 unfolding tail_load_lanes [OF assms(1,2)] vmovl_u8_def by simp
    finally show ?thesis .
  qed
  have l: "8 * length [0..<unat k] \<le> length w" using assms(6) by simp
  from lanes_sum [OF l assms(4,5) lx, of z]
  obtain vacc' where r: "fold (\<lambda>lane r. Option.bind r (mac_lane z vxa lane)) [0..<unat k]
                            (Some (vacc, w)) = Some (vacc', drop (8 * length [0..<unat k]) w)"
    and s: "\<forall>i<8. \<forall>j<8. vacc' ! i ! j
              = vacc ! i ! j
                + (\<Sum>n<length [0..<unat k]. scast (ucast (w ! (8 * n + j)) - ucast z :: i16)
                                               * scast (vxa ! i ! ([0..<unat k] ! n)))"
    by blast
  have c: "channel_tail mem z k a07 (vacc, w) = Some (vacc', drop (8 * unat k) w)"
    unfolding channel_tail_lanes [OF assms(1,2)] vxa_def [symmetric] using r by simp
  have v: "vacc' ! i ! j
             = vacc ! i ! j
               + word_of_int (\<Sum>c<unat k. uint (mem (a07 ! i + of_nat c))
                                             * (uint (w ! (8 * c + j)) - uint z))"
    if i: "i < 8" and j: "j < 8" for i j
  proof -
    have "(\<Sum>n<length [0..<unat k]. scast (ucast (w ! (8 * n + j)) - ucast z :: i16)
                                               * scast (vxa ! i ! ([0..<unat k] ! n)))
        = (\<Sum>c<unat k. (word_of_int (uint (mem (a07 ! i + of_nat c))
                                       * (uint (w ! (8 * c + j)) - uint z)) :: i32))"
    proof (simp only: length_upt minus_nat.diff_0, rule sum.cong [OF refl])
      fix c assume "c \<in> {..<unat k}"
      then have ck: "c < unat k" by simp
      then have e: "[0..<unat k] ! c = c" by simp
      have "(scast (ucast (w ! (8 * c + j)) - ucast z :: i16) :: i32) * scast (vxa ! i ! c)
              = word_of_int (uint (w ! (8 * c + j)) - uint z)
                * word_of_int (uint (mem (a07 ! i + of_nat c)))"
        unfolding lane [OF i ck] widen_weight widen_activation ..
      also have "\<dots> = word_of_int (uint (mem (a07 ! i + of_nat c))
                                     * (uint (w ! (8 * c + j)) - uint z))"
        by (simp only: of_int_mult mult.commute)
      finally show "(scast (ucast (w ! (8 * c + j)) - ucast z :: i16) :: i32)
                    * scast (vxa ! i ! ([0..<unat k] ! c))
                 = word_of_int (uint (mem (a07 ! i + of_nat c)) * (uint (w ! (8 * c + j)) - uint z))"
        unfolding e .
    qed
    also have "\<dots> = word_of_int (\<Sum>c<unat k. uint (mem (a07 ! i + of_nat c))
                                                  * (uint (w ! (8 * c + j)) - uint z))"
      by (simp only: of_int_sum)
    finally show ?thesis using s [rule_format, OF i j] by simp
  qed
  then have "\<forall>i<8. \<forall>j<8. vacc' ! i ! j
                      = vacc ! i ! j
                        + word_of_int (\<Sum>c<unat k. uint (mem (a07 ! i + of_nat c))
                                                      * (uint (w ! (8 * c + j)) - uint z))"
    by blast
  with c show "\<exists>vacc'. channel_tail mem z k a07 (vacc, w) = Some (vacc', drop (8 * unat k) w)
               \<and> (\<forall>i<8. \<forall>j<8. vacc' ! i ! j
                      = vacc ! i ! j
                        + word_of_int (\<Sum>c<unat k. uint (mem (a07 ! i + of_nat c))
                                                      * (uint (w ! (8 * c + j)) - uint z)))"
    by (intro exI [of _ vacc'] conjI)
qed

text \<open>
  Claim C4 for a tail of 3 channels on the one-pixel input, with zero accumulators and
  weight bytes 5: the lanes are 3, 3, 3 and five zeros, and every accumulator becomes
  \<open>3 * (3 * 5) = 45\<close>.
\<close>

theorem tail_reduction_witness:
  "tail_load scenario_mem 3 4096 = [3, 3, 3, 0, 0, 0, 0, 0]
   \<and> (\<exists>vacc'. channel_tail scenario_mem 0 3 scenario_a (replicate 8 (replicate 8 0), replicate 24 5)
                 = Some (vacc', [])
          \<and> vacc' ! 0 ! 0 = 45 \<and> vacc' ! 7 ! 7 = 45)"
proof -
  have h: "(3 :: size_t) \<noteq> 0" "(3 :: size_t) < 8" "length scenario_a = 8"
    "length (replicate 8 (replicate 8 (0 :: i32))) = 8"
    "\<forall>i<8. length (replicate 8 (replicate 8 (0 :: i32)) ! i) = 8"
    "8 * unat (3 :: size_t) \<le> length (replicate 24 (5 :: u8))"
    by (simp_all add: scenario_a_def word_less_nat_alt)
  note t = tail_reduction [OF h, of scenario_mem 0]
  from t have "tail_load scenario_mem 3 4096
                 = map (\<lambda>c. if c < unat (3 :: size_t) then scenario_mem (4096 + of_nat c) else 0) [0..<8]"
    by blast
  then have a: "tail_load scenario_mem 3 4096 = [3, 3, 3, 0, 0, 0, 0, 0]"
    by (simp add: upt_8 scenario_mem_def word_le_nat_alt word_less_nat_alt)
  from t obtain vacc'
    where c: "channel_tail scenario_mem 0 3 scenario_a (replicate 8 (replicate 8 0), replicate 24 5)
                 = Some (vacc', drop (8 * unat (3 :: size_t)) (replicate 24 5))"
      and s: "\<forall>i<8. \<forall>j<8. vacc' ! i ! j
                = replicate 8 (replicate 8 0) ! i ! j
                  + word_of_int (\<Sum>c<unat (3 :: size_t). uint (scenario_mem (scenario_a ! i + of_nat c))
                                      * (uint (replicate 24 (5 :: u8) ! (8 * c + j)) - uint (0 :: u8)))"
    by blast
  have three: "(\<Sum>c<3. f c) = f 0 + f 1 + f 2" for f :: "nat \<Rightarrow> int"
    by (simp add: numeral_3_eq_3 numeral_2_eq_2)
  have m: "scenario_mem (4096 + of_nat c) = 3" if "c < 3" for c
  proof -
    from that have "c = 0 \<or> c = 1 \<or> c = 2" by auto
    then show ?thesis
      by (elim disjE) (simp_all add: scenario_mem_def word_le_nat_alt word_less_nat_alt)
  qed
  have v: "vacc' ! i ! j = 45" if "i < 8" "j < 8" for i j
  proof -
    have "scenario_a ! i = 4096" using that(1) by (simp add: scenario_a_def)
    then show ?thesis
      using s [rule_format, OF that] that by (simp add: three m)
  qed
  from c v [of 0 0] v [of 7 7] a show ?thesis by simp
qed

text \<open>
  Claim C4 as stated fails in the layout and in the bytes read.  For \<open>k = 3\<close> and a row at
  address 16 the valid bytes 16, 17, 18 are the low lanes 0, 1, 2, not the high lanes, and
  the lanes above them are zero; the 8 bytes loaded are those at addresses 11 .. 18, none
  behind the last tail channel.
\<close>

theorem tail_lanes_counterexample:
  "tail_load address_mem 3 16 = [16, 17, 18, 0, 0, 0, 0, 0]
   \<and> vld1_u8 address_mem (16 - (8 - 3)) = [11, 12, 13, 14, 15, 16, 17, 18]"
proof -
  have h: "(3 :: size_t) \<noteq> 0" "(3 :: size_t) < 8" by (simp_all add: word_less_nat_alt)
  show ?thesis
    unfolding tail_load_lanes [OF h] by (simp add: upt_8 vld1_u8_def address_mem_def)
qed
end
